theory Spec2Isabelle
  imports Complex_Main "HOL-Library.AList"
begin

section \<open>Errors and numbers\<close>

text \<open>
  Every exception the modelled code can raise is a value; a fallible function returns
  \<open>error + 'a\<close> with \<open>Inl\<close> for the raised exception.
\<close>

datatype error =
  KeyError | ValueError | ZeroDivisionError | AttributeError | IndexError | OverflowError

text \<open>
  A numpy \<open>float64\<close>: a finite value or one of the IEEE special values, which the code
  reaches by dividing by a zero sum. The operations that follow are the exact ones on the
  finite values; the operations of float64, which round, are defined from them below.
\<close>

datatype npfloat = Fin real | PInf | NInf | NaN

fun fadd :: "npfloat \<Rightarrow> npfloat \<Rightarrow> npfloat" where
  "fadd (Fin a) (Fin b) = Fin (a + b)"
| "fadd NaN _ = NaN"
| "fadd _ NaN = NaN"
| "fadd PInf NInf = NaN"
| "fadd NInf PInf = NaN"
| "fadd PInf _ = PInf"
| "fadd _ PInf = PInf"
| "fadd NInf _ = NInf"
| "fadd _ NInf = NInf"

fun fneg :: "npfloat \<Rightarrow> npfloat" where
  "fneg (Fin a) = Fin (- a)"
| "fneg PInf = NInf"
| "fneg NInf = PInf"
| "fneg NaN = NaN"

definition inf_of_sign :: "real \<Rightarrow> npfloat" where
  "inf_of_sign s = (if s = 0 then NaN else if 0 < s then PInf else NInf)"

fun fmul :: "npfloat \<Rightarrow> npfloat \<Rightarrow> npfloat" where
  "fmul (Fin a) (Fin b) = Fin (a * b)"
| "fmul NaN _ = NaN"
| "fmul _ NaN = NaN"
| "fmul (Fin a) PInf = inf_of_sign a"
| "fmul (Fin a) NInf = inf_of_sign (- a)"
| "fmul PInf (Fin b) = inf_of_sign b"
| "fmul NInf (Fin b) = inf_of_sign (- b)"
| "fmul PInf PInf = PInf"
| "fmul NInf NInf = PInf"
| "fmul PInf NInf = NInf"
| "fmul NInf PInf = NInf"

text \<open>numpy's true division: a zero divisor gives an infinity or, for \<open>0 / 0\<close>, NaN.\<close>

fun fdiv :: "npfloat \<Rightarrow> npfloat \<Rightarrow> npfloat" where
  "fdiv (Fin a) (Fin b) = (if b = 0 then inf_of_sign a else Fin (a / b))"
| "fdiv NaN _ = NaN"
| "fdiv _ NaN = NaN"
| "fdiv (Fin a) PInf = Fin 0"
| "fdiv (Fin a) NInf = Fin 0"
| "fdiv PInf (Fin b) = (if 0 \<le> b then PInf else NInf)"
| "fdiv NInf (Fin b) = (if 0 \<le> b then NInf else PInf)"
| "fdiv PInf _ = NaN"
| "fdiv NInf _ = NaN"

fun flog :: "npfloat \<Rightarrow> npfloat" where
  "flog (Fin a) = (if 0 < a then Fin (ln a) else if a = 0 then NInf else NaN)"
| "flog PInf = PInf"
| "flog NInf = NaN"
| "flog NaN = NaN"

text \<open>The comparison \<open>a < b\<close>; every comparison with NaN is false.\<close>

fun fless :: "npfloat \<Rightarrow> npfloat \<Rightarrow> bool" where
  "fless (Fin a) (Fin b) = (a < b)"
| "fless NaN _ = False"
| "fless _ NaN = False"
| "fless PInf _ = False"
| "fless NInf NInf = False"
| "fless NInf _ = True"
| "fless (Fin a) PInf = True"
| "fless (Fin a) NInf = False"

definition fsum :: "npfloat list \<Rightarrow> npfloat" where
  "fsum xs = foldl fadd (Fin 0) xs"

subsection \<open>Float arithmetic\<close>

text \<open>
  A float64 operation returns the exact result rounded to a float64, an infinity when it
  overflows. The rounding \<open>fl\<close> is a parameter of the model, and so are the three library
  functions whose result is not the rounding of the exact one: \<open>np.log\<close>, \<open>np.sum\<close> (which
  adds in an order of its own) and the row accumulation \<open>\<Sum> a\<^sub>k \<cdot> x\<^sub>k\<close> of a sparse
  matrix-vector product. What is proved for every such arithmetic holds for float64.
\<close>

record farith =
  fl :: "real \<Rightarrow> npfloat"
  np_log :: "npfloat \<Rightarrow> npfloat"
  np_sum :: "npfloat list \<Rightarrow> npfloat"
  sp_dot :: "(npfloat \<times> npfloat) list \<Rightarrow> npfloat"

definition rounded :: "farith \<Rightarrow> npfloat \<Rightarrow> npfloat" where
  "rounded fa x = (case x of Fin a \<Rightarrow> fl fa a | _ \<Rightarrow> x)"

definition radd :: "farith \<Rightarrow> npfloat \<Rightarrow> npfloat \<Rightarrow> npfloat" where
  "radd fa a b = rounded fa (fadd a b)"

definition rmul :: "farith \<Rightarrow> npfloat \<Rightarrow> npfloat \<Rightarrow> npfloat" where
  "rmul fa a b = rounded fa (fmul a b)"

definition rdiv :: "farith \<Rightarrow> npfloat \<Rightarrow> npfloat \<Rightarrow> npfloat" where
  "rdiv fa a b = rounded fa (fdiv a b)"

text \<open>
  The arithmetic that rounds nothing. A float64 computation whose intermediate results
  are all float64 values (sums of a few dyadic fractions, say) is a computation in it.
\<close>

definition exact :: farith where
  "exact = \<lparr> fl = Fin, np_log = flog, np_sum = fsum,
             sp_dot = (\<lambda>ps. fsum (map (\<lambda>(a, x). fmul a x) ps)) \<rparr>"

section \<open>The knowledge graph (base.py)\<close>

text \<open>
  A Python set is a duplicate-free list (in insertion order), a dict that the code iterates
  is an association list in insertion order, a dict that is only looked up is a map.
  \<open>entity_value_'\<close> and \<open>triple_value_'\<close> are attributes that exist only after \<open>reset\<close>:
  \<open>None\<close> is the missing attribute.
\<close>

type_synonym triple = "string \<times> string \<times> string"

record kg =
  entities_' :: "string list"
  relationships_' :: "string list"
  triples_' :: "(string \<times> (string \<times> string list) list) list"
  number_of_triples_' :: nat
  eid_' :: nat
  entity_id_' :: "string \<rightharpoonup> nat"
  id_entity_' :: "nat \<rightharpoonup> string"
  entity_value_' :: "(string \<rightharpoonup> npfloat) option"
  triple_value_' :: "(triple \<rightharpoonup> npfloat) option"

definition KnowledgeGraph :: kg where
  "KnowledgeGraph = \<lparr> entities_' = [], relationships_' = [], triples_' = [],
     number_of_triples_' = 0, eid_' = 0, entity_id_' = Map.empty, id_entity_' = Map.empty,
     entity_value_' = None, triple_value_' = None \<rparr>"

definition triples :: "'a kg_scheme \<Rightarrow> triple list" where
  "triples KG = concat (map (\<lambda>(e1, d).
     concat (map (\<lambda>(r, os). map (\<lambda>e2. (e1, r, e2)) os) d)) (triples_' KG))"

definition number_of_entities :: "'a kg_scheme \<Rightarrow> nat" where
  "number_of_entities KG = length (entities_' KG)"

definition number_of_triples :: "'a kg_scheme \<Rightarrow> nat" where
  "number_of_triples KG = number_of_triples_' KG"

definition has_entity :: "'a kg_scheme \<Rightarrow> string \<Rightarrow> bool" where
  "has_entity KG entity = (entity \<in> set (entities_' KG))"

text \<open>\<open>__getitem__\<close> and \<open>__contains__\<close>: the dict of a head entity.\<close>

definition getitem :: "'a kg_scheme \<Rightarrow> string \<Rightarrow> error + (string \<times> string list) list" where
  "getitem KG entity =
     (case map_of (triples_' KG) entity of None \<Rightarrow> Inl KeyError | Some d \<Rightarrow> Inr d)"

definition contains :: "'a kg_scheme \<Rightarrow> string \<Rightarrow> bool" where
  "contains KG entity = (map_of (triples_' KG) entity \<noteq> None)"

definition has_triple :: "'a kg_scheme \<Rightarrow> triple \<Rightarrow> bool" where
  "has_triple KG triple = (case triple of (e1, r, e2) \<Rightarrow>
     (case map_of (triples_' KG) e1 of None \<Rightarrow> False
      | Some d \<Rightarrow> (case map_of d r of None \<Rightarrow> False | Some os \<Rightarrow> e2 \<in> set os)))"

definition record_entity :: "string \<Rightarrow> 'a kg_scheme \<Rightarrow> 'a kg_scheme" where
  "record_entity entity KG =
     (if has_entity KG entity then KG
      else KG\<lparr> entity_id_' := (entity_id_' KG)(entity \<mapsto> eid_' KG),
               id_entity_' := (id_entity_' KG)(eid_' KG \<mapsto> entity),
               entities_' := entities_' KG @ [entity],
               eid_' := eid_' KG + 1 \<rparr>)"

definition insert_edge ::
  "triple \<Rightarrow> (string \<times> (string \<times> string list) list) list
     \<Rightarrow> (string \<times> (string \<times> string list) list) list" where
  "insert_edge triple ts = (case triple of (e1, r, e2) \<Rightarrow>
     (let d = (case map_of ts e1 of None \<Rightarrow> [] | Some d \<Rightarrow> d);
          os = (case map_of d r of None \<Rightarrow> [] | Some os \<Rightarrow> os)
      in AList.update e1 (AList.update r (List.insert e2 os) d) ts))"

definition add_triple :: "triple \<Rightarrow> 'a kg_scheme \<Rightarrow> 'a kg_scheme" where
  "add_triple triple KG = (case triple of (e1, r, e2) \<Rightarrow>
     (if has_triple KG triple then KG
      else (let KG1 = KG\<lparr> number_of_triples_' := number_of_triples_' KG + 1,
                           relationships_' := List.insert r (relationships_' KG) \<rparr>;
                KG2 = record_entity e2 (record_entity e1 KG1)
            in KG2\<lparr> triples_' := insert_edge triple (triples_' KG2) \<rparr>)))"

definition entity_id :: "'a kg_scheme \<Rightarrow> string \<Rightarrow> error + nat" where
  "entity_id KG entity =
     (case entity_id_' KG entity of None \<Rightarrow> Inl KeyError | Some i \<Rightarrow> Inr i)"

definition id_entity :: "'a kg_scheme \<Rightarrow> nat \<Rightarrow> error + string" where
  "id_entity KG eid =
     (case id_entity_' KG eid of None \<Rightarrow> Inl KeyError | Some e \<Rightarrow> Inr e)"

text \<open>A graph as the ingestion builds it: triples added one by one to an empty graph.\<close>

definition kg_of :: "triple list \<Rightarrow> kg" where
  "kg_of ts = fold add_triple ts KnowledgeGraph"

section \<open>Queries (query.py)\<close>

record constraint =
  SourceNodeIndex :: nat
  NodePredicate :: string
  Argument :: string
  EntityName :: string

record answer =
  AnswerType :: string
  AnswerArgument :: string
  AnswerEntityName :: string

record parse =
  TopicEntityMid :: string
  TopicEntityName :: string
  InferentialChain :: "string list"
  Constraints :: "constraint list"
  Answers :: "answer list"

record query =
  QuestionId :: string
  Parse :: parse

text \<open>
  The guarded lookup \<open>KG[entity][predicate] if entity in KG and predicate in KG[entity]\<close>,
  empty otherwise.
\<close>

definition objects :: "'a kg_scheme \<Rightarrow> string \<Rightarrow> string \<Rightarrow> string list" where
  "objects KG entity predicate =
     (case map_of (triples_' KG) entity of None \<Rightarrow> []
      | Some d \<Rightarrow> (case map_of d predicate of None \<Rightarrow> [] | Some os \<Rightarrow> os))"

definition add_candidates :: "'a kg_scheme \<Rightarrow> string \<Rightarrow> string list \<Rightarrow> string list" where
  "add_candidates KG predicate result =
     remdups (concat (map (\<lambda>entity. objects KG entity predicate) result))"

text \<open>The test that puts a candidate into \<open>remove\<close>.\<close>

definition misfit :: "'a kg_scheme \<Rightarrow> string \<Rightarrow> string \<Rightarrow> string \<Rightarrow> bool" where
  "misfit KG predicate argument entity =
     (case map_of (triples_' KG) entity of None \<Rightarrow> True
      | Some d \<Rightarrow> (case map_of d predicate of None \<Rightarrow> True | Some os \<Rightarrow> argument \<notin> set os))"

definition remove_of :: "'a kg_scheme \<Rightarrow> constraint list \<Rightarrow> string list \<Rightarrow> string list" where
  "remove_of KG cs candidates =
     filter (\<lambda>entity. list_ex (\<lambda>c. misfit KG (NodePredicate c) (Argument c) entity) cs)
       candidates"

fun answer_loop ::
  "'a kg_scheme \<Rightarrow> constraint list \<Rightarrow> nat \<Rightarrow> string list \<Rightarrow> string list \<Rightarrow> string list"
where
  "answer_loop KG cs index [] result = result"
| "answer_loop KG cs index (predicate # chain) result =
     (let candidates = add_candidates KG predicate result;
          remove = remove_of KG (filter (\<lambda>c. SourceNodeIndex c = index) cs) candidates;
          candidates = filter (\<lambda>e. e \<notin> set remove) candidates
      in answer_loop KG cs (Suc index) chain candidates)"

definition answer_query :: "'a kg_scheme \<Rightarrow> query \<Rightarrow> string set" where
  "answer_query KG query =
     (let parse = Parse query;
          topic_mid = TopicEntityMid parse;
          result = answer_loop KG (Constraints parse) 0 (InferentialChain parse) [topic_mid]
      in set result - {topic_mid})"

subsection \<open>Query generation\<close>

text \<open>
  The random generator is the list of its future draws (a draw past the end of the list
  is 0). \<open>random.choice(seq)\<close> raises IndexError on an empty sequence and otherwise
  returns the element at a drawn position, so every element can be chosen.
\<close>

fun draw :: "nat list \<Rightarrow> nat \<times> nat list" where
  "draw [] = (0, [])"
| "draw (d # rnd) = (d, rnd)"

definition choice :: "'a list \<Rightarrow> nat list \<Rightarrow> error + ('a \<times> nat list)" where
  "choice seq rnd =
     (if seq = [] then Inl IndexError
      else (case draw rnd of (d, rnd') \<Rightarrow> Inr (seq ! (d mod length seq), rnd')))"

definition get_name :: "string \<Rightarrow> (string \<rightharpoonup> string) \<Rightarrow> string" where
  "get_name mid entity_names = (case entity_names mid of Some name \<Rightarrow> name | None \<Rightarrow> mid)"

text \<open>\<open>KG[entity][predicate]\<close> without a guard: a missing key raises.\<close>

definition getitem2 :: "'a kg_scheme \<Rightarrow> string \<Rightarrow> string \<Rightarrow> error + string list" where
  "getitem2 KG entity predicate =
     (case getitem KG entity of Inl e \<Rightarrow> Inl e
      | Inr d \<Rightarrow> (case map_of d predicate of None \<Rightarrow> Inl KeyError | Some os \<Rightarrow> Inr os))"

text \<open>The predicates of \<open>KG[entity]\<close> that pass the filter, \<open>[]\<close> when \<open>entity not in KG\<close>.\<close>

definition predicates_of :: "'a kg_scheme \<Rightarrow> string \<Rightarrow> (string \<Rightarrow> bool) \<Rightarrow> string list" where
  "predicates_of KG entity keep =
     (case getitem KG entity of Inl e \<Rightarrow> [] | Inr d \<Rightarrow> filter keep (map fst d))"

text \<open>The first loop of \<open>generate_query\<close>: a random directed path from the topic.\<close>

fun build_chain ::
  "'a kg_scheme \<Rightarrow> string list \<Rightarrow> nat \<Rightarrow> string \<Rightarrow> nat list \<Rightarrow> error + (string list \<times> nat list)"
where
  "build_chain KG exclude_preds 0 entity rnd = Inr ([], rnd)"
| "build_chain KG exclude_preds (Suc n) entity rnd =
     (let predicates = predicates_of KG entity (\<lambda>pred. pred \<notin> set exclude_preds)
      in if predicates = [] then Inr ([], rnd)
         else (case choice predicates rnd of Inl e \<Rightarrow> Inl e
           | Inr (predicate, rnd1) \<Rightarrow>
             (case getitem2 KG entity predicate of Inl e \<Rightarrow> Inl e
              | Inr entities \<Rightarrow>
                (case choice entities rnd1 of Inl e \<Rightarrow> Inl e
                 | Inr (entity', rnd2) \<Rightarrow>
                   (case build_chain KG exclude_preds n entity' rnd2 of Inl e \<Rightarrow> Inl e
                    | Inr (chain, rnd3) \<Rightarrow> Inr (predicate # chain, rnd3))))))"

text \<open>
  The body of \<open>if candidates and constraint_index == index\<close>: it may record one
  constraint and filter the candidates with it.
\<close>

definition add_constraint ::
  "'a kg_scheme \<Rightarrow> (string \<rightharpoonup> string) \<Rightarrow> string list \<Rightarrow> string list \<Rightarrow> nat
     \<Rightarrow> string list \<Rightarrow> constraint list \<Rightarrow> nat list
     \<Rightarrow> error + (string list \<times> constraint list \<times> nat list)" where
  "add_constraint KG entity_names exclude_preds inferential_chain index candidates
       constraints rnd =
     (case choice candidates rnd of Inl e \<Rightarrow> Inl e
      | Inr (entity, rnd1) \<Rightarrow>
        (let predicates = predicates_of KG entity
               (\<lambda>pred. pred \<notin> set inferential_chain \<and> pred \<notin> set exclude_preds)
         in if predicates = [] then Inr (candidates, constraints, rnd1)
            else (case choice predicates rnd1 of Inl e \<Rightarrow> Inl e
              | Inr (predicate, rnd2) \<Rightarrow>
                (case getitem2 KG entity predicate of Inl e \<Rightarrow> Inl e
                 | Inr os \<Rightarrow>
                   if os = [] then Inr (candidates, constraints, rnd2)
                   else (case choice os rnd2 of Inl e \<Rightarrow> Inl e
                     | Inr (argument, rnd3) \<Rightarrow>
                       (let constraints' = constraints @
                              [\<lparr> SourceNodeIndex = index, NodePredicate = predicate,
                                 Argument = argument,
                                 EntityName = get_name entity entity_names \<rparr>];
                            remove = filter (misfit KG predicate argument) candidates
                        in Inr (filter (\<lambda>e. e \<notin> set remove) candidates,
                                constraints', rnd3)))))))"

text \<open>The second loop: the answers, with the constraint at \<open>constraint_index\<close>.\<close>

fun generate_loop ::
  "'a kg_scheme \<Rightarrow> (string \<rightharpoonup> string) \<Rightarrow> nat option \<Rightarrow> string list \<Rightarrow> string list
     \<Rightarrow> nat \<Rightarrow> string list \<Rightarrow> string list \<Rightarrow> constraint list \<Rightarrow> nat list
     \<Rightarrow> error + (string list \<times> constraint list \<times> nat list)"
where
  "generate_loop KG entity_names constraint_index exclude_preds inferential_chain
       index [] result constraints rnd = Inr (result, constraints, rnd)"
| "generate_loop KG entity_names constraint_index exclude_preds inferential_chain
       index (predicate # chain) result constraints rnd =
     (let candidates = add_candidates KG predicate result
      in case (if candidates \<noteq> [] \<and> constraint_index = Some index
               then add_constraint KG entity_names exclude_preds inferential_chain index
                      candidates constraints rnd
               else Inr (candidates, constraints, rnd)) of
           Inl e \<Rightarrow> Inl e
         | Inr (candidates', constraints', rnd') \<Rightarrow>
             generate_loop KG entity_names constraint_index exclude_preds inferential_chain
               (Suc index) chain candidates' constraints' rnd')"

text \<open>Python's \<open>str\<close> of a non-negative integer.\<close>

fun str :: "nat \<Rightarrow> string" where
  "str n = (if n < 10 then [char_of (48 + n)]
            else str (n div 10) @ [char_of (48 + n mod 10)])"

declare str.simps [simp del]

text \<open>
  \<open>is_entity\<close> is a method of the graph's subclass (Freebase, YAGO, DBPedia), taken as a
  parameter.
\<close>

definition generate_query ::
  "(string \<Rightarrow> bool) \<Rightarrow> 'a kg_scheme \<Rightarrow> string \<Rightarrow> nat \<Rightarrow> nat \<Rightarrow> (string \<rightharpoonup> string)
     \<Rightarrow> nat option \<Rightarrow> string list \<Rightarrow> nat list \<Rightarrow> error + query" where
  "generate_query is_entity KG topic_mid chain_len qid entity_names constraint_index
       exclude_preds rnd =
     (case build_chain KG exclude_preds chain_len topic_mid rnd of Inl e \<Rightarrow> Inl e
      | Inr (inferential_chain, rnd1) \<Rightarrow>
        (case generate_loop KG entity_names constraint_index exclude_preds inferential_chain
                0 inferential_chain [topic_mid] [] rnd1 of Inl e \<Rightarrow> Inl e
         | Inr (result, constraints, rnd2) \<Rightarrow>
           Inr \<lparr> QuestionId = str qid,
                 Parse = \<lparr> TopicEntityMid = topic_mid,
                   TopicEntityName = get_name topic_mid entity_names,
                   InferentialChain = inferential_chain,
                   Constraints = constraints,
                   Answers = map (\<lambda>answer.
                       \<lparr> AnswerType = (if is_entity answer then ''Entity'' else ''Value''),
                         AnswerArgument = answer,
                         AnswerEntityName = get_name answer entity_names \<rparr>)
                     (filter (\<lambda>e. e \<noteq> topic_mid) result) \<rparr> \<rparr>))"

section \<open>The value model (base.py, algorithms.py)\<close>

text \<open>
  \<open>reset\<close> installs two \<open>defaultdict(float)\<close>: a lookup of a missing key gives 0.0. (The
  lookup also stores the default under the key, which no later lookup can tell apart
  from the missing key.)
\<close>

definition reset :: "'a kg_scheme \<Rightarrow> 'a kg_scheme" where
  "reset KG = KG\<lparr> entity_value_' := Some Map.empty, triple_value_' := Some Map.empty \<rparr>"

definition entity_value :: "'a kg_scheme \<Rightarrow> string \<Rightarrow> error + npfloat" where
  "entity_value KG entity =
     (case entity_value_' KG of None \<Rightarrow> Inl AttributeError
      | Some m \<Rightarrow> Inr (case m entity of None \<Rightarrow> Fin 0 | Some v \<Rightarrow> v))"

definition triple_value :: "'a kg_scheme \<Rightarrow> triple \<Rightarrow> error + npfloat" where
  "triple_value KG triple =
     (case triple_value_' KG of None \<Rightarrow> Inl AttributeError
      | Some m \<Rightarrow> Inr (case m triple of None \<Rightarrow> Fin 0 | Some v \<Rightarrow> v))"

subsection \<open>Sparse matrices\<close>

text \<open>
  A scipy sparse matrix: its shape \<open>(n, n)\<close> and its stored entries. The constructor
  \<open>csr_matrix((data, (row, col)), shape)\<close> sums the data of duplicate positions and
  rejects an index outside the shape. A product only multiplies stored entries. The
  entries of the adjacency, degree and transition matrices are counts of triples and
  products of two counts: their sums and products are exact in float64.
\<close>

type_synonym spmatrix = "nat \<times> (nat \<times> nat \<rightharpoonup> npfloat)"

definition csr_of :: "nat \<Rightarrow> (nat \<times> nat \<times> npfloat) list \<Rightarrow> error + spmatrix" where
  "csr_of n coo =
     (if list_ex (\<lambda>(i, j, v). n \<le> i \<or> n \<le> j) coo then Inl ValueError
      else Inr (n, \<lambda>(i, j).
        (let vs = map (\<lambda>(i', j', v). v) (filter (\<lambda>(i', j', v). i' = i \<and> j' = j) coo)
         in if vs = [] then None else Some (fsum vs))))"

definition transpose :: "spmatrix \<Rightarrow> spmatrix" where
  "transpose M = (fst M, \<lambda>(i, j). snd M (j, i))"

definition stored :: "npfloat option \<Rightarrow> npfloat list" where
  "stored x = (case x of None \<Rightarrow> [] | Some v \<Rightarrow> [v])"

definition matmul :: "spmatrix \<Rightarrow> spmatrix \<Rightarrow> error + spmatrix" where
  "matmul A B =
     (if fst A \<noteq> fst B then Inl ValueError
      else Inr (fst A, \<lambda>(i, j).
        (let ps = concat (map (\<lambda>k. concat (map (\<lambda>a. map (fmul a) (stored (snd B (k, j))))
                                            (stored (snd A (i, k))))) [0..<fst A])
         in if ps = [] then None else Some (fsum ps))))"

definition scale :: "farith \<Rightarrow> npfloat \<Rightarrow> spmatrix \<Rightarrow> spmatrix" where
  "scale fa s M = (fst M, \<lambda>p. map_option (rmul fa s) (snd M p))"

text \<open>
  The product of a sparse matrix and a dense vector: the coordinate \<open>i\<close> accumulates the
  products of the stored entries of row \<open>i\<close> with the coordinates of their columns.
\<close>

definition matvec :: "farith \<Rightarrow> spmatrix \<Rightarrow> npfloat list \<Rightarrow> error + npfloat list" where
  "matvec fa M q =
     (if length q \<noteq> fst M then Inl ValueError
      else Inr (map (\<lambda>i. sp_dot fa (concat (map (\<lambda>k. map (\<lambda>a. (a, q ! k))
                                                       (stored (snd M (i, k)))) [0..<fst M])))
                  [0..<fst M]))"

text \<open>
  The three nested loops of \<open>csr_matrix\<close> and \<open>transition_matrix\<close> over the triples:
  one (row, column) pair of entity IDs for each triple.
\<close>

fun id_pairs :: "'a kg_scheme \<Rightarrow> bool \<Rightarrow> triple list \<Rightarrow> error + (nat \<times> nat) list" where
  "id_pairs KG diag [] = Inr []"
| "id_pairs KG diag ((e1, r, e2) # ts) =
     (case entity_id KG e1 of Inl e \<Rightarrow> Inl e
      | Inr row \<Rightarrow>
        (case entity_id KG (if diag then e1 else e2) of Inl e \<Rightarrow> Inl e
         | Inr col \<Rightarrow>
           (case id_pairs KG diag ts of Inl e \<Rightarrow> Inl e
            | Inr ps \<Rightarrow> Inr ((row, col) # ps))))"

definition csr_matrix :: "'a kg_scheme \<Rightarrow> error + spmatrix" where
  "csr_matrix KG =
     (case id_pairs KG False (triples KG) of Inl e \<Rightarrow> Inl e
      | Inr ps \<Rightarrow> csr_of (number_of_entities KG) (map (\<lambda>(row, col). (row, col, Fin 1)) ps))"

definition transition_matrix :: "'a kg_scheme \<Rightarrow> error + spmatrix" where
  "transition_matrix KG =
     (case id_pairs KG True (triples KG) of Inl e \<Rightarrow> Inl e
      | Inr ps \<Rightarrow>
        (let data = map (\<lambda>p. (1::int)) ps;
             inv = map (\<lambda>d. fdiv (Fin 1) (Fin (real_of_int d))) data
         in case csr_of (number_of_entities KG)
                   (map (\<lambda>((row, col), v). (row, col, v)) (zip ps inv)) of
              Inl e \<Rightarrow> Inl e
            | Inr D \<Rightarrow>
              (case csr_matrix KG of Inl e \<Rightarrow> Inl e
               | Inr A \<Rightarrow> matmul (transpose A) D)))"

subsection \<open>The random walk\<close>

fun query_vector_loop ::
  "farith \<Rightarrow> 'a kg_scheme \<Rightarrow> query list \<Rightarrow> npfloat list \<Rightarrow> error + npfloat list" where
  "query_vector_loop fa KG [] x = Inr x"
| "query_vector_loop fa KG (query # query_log) x =
     (case entity_id KG (TopicEntityMid (Parse query)) of Inl e \<Rightarrow> Inl e
      | Inr topic_eid \<Rightarrow>
        if length x \<le> topic_eid then Inl IndexError
        else query_vector_loop fa KG query_log
               (x[topic_eid := radd fa (x ! topic_eid) (Fin 1)]))"

definition query_vector ::
  "farith \<Rightarrow> 'a kg_scheme \<Rightarrow> query list \<Rightarrow> error + npfloat list" where
  "query_vector fa KG query_log =
     query_vector_loop fa KG query_log (replicate (number_of_entities KG) (Fin 0))"

text \<open>
  \<open>random_walk_with_restart\<close>; \<open>(1 - c) * M * q\<close> is \<open>((1 - c) * M) * q\<close>: the matrix is scaled
  entry by entry, then multiplied with the vector.
\<close>

fun walk_loop ::
  "farith \<Rightarrow> spmatrix \<Rightarrow> npfloat \<Rightarrow> nat \<Rightarrow> npfloat list \<Rightarrow> npfloat list
     \<Rightarrow> error + npfloat list" where
  "walk_loop fa M c 0 q r = Inr r"
| "walk_loop fa M c (Suc k) q r =
     (case matvec fa (scale fa (radd fa (Fin 1) (fneg c)) M) q of Inl e \<Rightarrow> Inl e
      | Inr q' \<Rightarrow>
        (let r1 = map2 (radd fa) r q';
             r2 = map (\<lambda>v. rdiv fa v (np_sum fa r1)) r1
         in walk_loop fa M c k q' r2))"

definition random_walk_with_restart ::
  "farith \<Rightarrow> spmatrix \<Rightarrow> npfloat list \<Rightarrow> npfloat \<Rightarrow> nat \<Rightarrow> error + npfloat list" where
  "random_walk_with_restart fa M x c power_n =
     (let q = map (rmul fa c) x in walk_loop fa M c power_n q q)"

fun store_entity_values ::
  "farith \<Rightarrow> 'a kg_scheme \<Rightarrow> nat \<Rightarrow> npfloat list \<Rightarrow> (string \<rightharpoonup> npfloat)
     \<Rightarrow> error + (string \<rightharpoonup> npfloat)" where
  "store_entity_values fa KG eid [] m = Inr m"
| "store_entity_values fa KG eid (val # x) m =
     (case id_entity KG eid of Inl e \<Rightarrow> Inl e
      | Inr entity \<Rightarrow>
          store_entity_values fa KG (Suc eid) x
            (m(entity \<mapsto> np_log fa (radd fa val (Fin 1)))))"

fun store_triple_values ::
  "farith \<Rightarrow> 'a kg_scheme \<Rightarrow> npfloat list \<Rightarrow> triple list \<Rightarrow> (triple \<rightharpoonup> npfloat)
     \<Rightarrow> error + (triple \<rightharpoonup> npfloat)" where
  "store_triple_values fa KG x [] m = Inr m"
| "store_triple_values fa KG x ((e1, r, e2) # ts) m =
     (case entity_id KG e1 of Inl e \<Rightarrow> Inl e
      | Inr eid1 \<Rightarrow>
        (case entity_id KG e2 of Inl e \<Rightarrow> Inl e
         | Inr eid2 \<Rightarrow>
           if length x \<le> eid1 \<or> length x \<le> eid2 then Inl IndexError
           else store_triple_values fa KG x ts
                  (m((e1, r, e2) \<mapsto>
                       np_log fa (radd fa (rmul fa (x ! eid1) (x ! eid2)) (Fin 1))))))"

text \<open>The restart probability is the default \<open>c = 0.15\<close>, the float64 nearest to 15/100.\<close>

definition model_user_pref ::
  "farith \<Rightarrow> 'a kg_scheme \<Rightarrow> query list \<Rightarrow> nat \<Rightarrow> error + 'a kg_scheme" where
  "model_user_pref fa KG0 query_log power_n =
     (let KG = reset KG0
      in case query_vector fa KG query_log of Inl e \<Rightarrow> Inl e
         | Inr x0 \<Rightarrow>
           (case transition_matrix KG of Inl e \<Rightarrow> Inl e
            | Inr M \<Rightarrow>
              (case random_walk_with_restart fa M x0 (fl fa (15 / 100)) power_n of
                 Inl e \<Rightarrow> Inl e
               | Inr x \<Rightarrow>
                 (case store_entity_values fa KG 0 x Map.empty of Inl e \<Rightarrow> Inl e
                  | Inr ev \<Rightarrow>
                    (case store_triple_values fa KG x (triples KG) Map.empty of
                       Inl e \<Rightarrow> Inl e
                     | Inr tv \<Rightarrow>
                         Inr (KG\<lparr> entity_value_' := Some ev,
                                  triple_value_' := Some tv \<rparr>))))))"

section \<open>Summaries (glimpse.py)\<close>

record summary = kg +
  parent_' :: kg

definition Summary :: "kg \<Rightarrow> summary" where
  "Summary KG = \<lparr> entities_' = [], relationships_' = [], triples_' = [],
     number_of_triples_' = 0, eid_' = 0, entity_id_' = Map.empty, id_entity_' = Map.empty,
     entity_value_' = None, triple_value_' = None, parent_' = KG \<rparr>"

text \<open>\<open>total += v\<close> is a float addition: the sum is rounded after each of the three.\<close>

definition marginal_value :: "farith \<Rightarrow> summary \<Rightarrow> triple \<Rightarrow> error + npfloat" where
  "marginal_value fa S triple = (case triple of (e1, r, e2) \<Rightarrow>
     (let total = Fin 0
      in case (if \<not> has_entity S e1
               then map_sum id (radd fa total) (entity_value (parent_' S) e1)
               else Inr total) of Inl e \<Rightarrow> Inl e
         | Inr total \<Rightarrow>
           (case (if \<not> has_entity S e2
                  then map_sum id (radd fa total) (entity_value (parent_' S) e2)
                  else Inr total) of Inl e \<Rightarrow> Inl e
            | Inr total \<Rightarrow>
                (if \<not> has_triple S triple
                 then map_sum id (radd fa total) (triple_value (parent_' S) triple)
                 else Inr total))))"

text \<open>
  The summary under construction is kept with its history: the list of its states, the
  current one first, one more state for each \<open>add_triple\<close> call.
\<close>

fun fill :: "summary list \<Rightarrow> triple list \<Rightarrow> nat \<Rightarrow> summary list" where
  "fill [] ts k = []"
| "fill (S # h) [] k = S # h"
| "fill (S # h) (triple # ts) k =
     (if k \<le> number_of_triples S then S # h
      else fill (add_triple triple S # S # h) ts k)"

section \<open>The candidate pool (heap.py)\<close>

record Triple =
  triple_' :: triple
  value_' :: npfloat

fun Heap_loop ::
  "farith \<Rightarrow> 'a kg_scheme \<Rightarrow> triple list \<Rightarrow> Triple list \<Rightarrow> error + Triple list" where
  "Heap_loop fa KG [] heap = Inr heap"
| "Heap_loop fa KG ((e1, r, e2) # ts) heap =
     (case entity_value KG e1 of Inl e \<Rightarrow> Inl e
      | Inr v1 \<Rightarrow>
        (case entity_value KG e2 of Inl e \<Rightarrow> Inl e
         | Inr v2 \<Rightarrow>
           (case triple_value KG (e1, r, e2) of Inl e \<Rightarrow> Inl e
            | Inr v3 \<Rightarrow>
              (let total = radd fa (radd fa v1 v2) v3
               in Heap_loop fa KG ts
                    (if fless (Fin 0) total
                     then heap @ [\<lparr> triple_' = (e1, r, e2), value_' = total \<rparr>]
                     else heap)))))"

definition Heap :: "farith \<Rightarrow> 'a kg_scheme \<Rightarrow> error + Triple list" where
  "Heap fa KG = Heap_loop fa KG (triples KG) []"

definition heap_triples :: "Triple list \<Rightarrow> triple list" where
  "heap_triples heap = map triple_' heap"

definition pop :: "Triple list \<Rightarrow> error + (triple \<times> Triple list)" where
  "pop heap = (if heap = [] then Inl ValueError
               else Inr (triple_' (last heap), butlast heap))"

definition update_marginal ::
  "farith \<Rightarrow> summary \<Rightarrow> Triple list \<Rightarrow> nat \<Rightarrow> error + Triple list" where
  "update_marginal fa S heap i =
     (case marginal_value fa S (triple_' (heap ! i)) of Inl e \<Rightarrow> Inl e
      | Inr v \<Rightarrow> Inr (heap[i := (heap ! i)\<lparr> value_' := v \<rparr>]))"

subsection \<open>heapq\<close>

text \<open>
  \<open>heapify\<close> and \<open>heapreplace\<close> of Python's standard library (Lib/heapq.py), on a list of
  references; \<open>lt a b\<close> is \<open>a < b\<close> on the referenced objects.
\<close>

function siftdown_loop ::
  "('a \<Rightarrow> 'a \<Rightarrow> bool) \<Rightarrow> 'a list \<Rightarrow> nat \<Rightarrow> nat \<Rightarrow> 'a \<Rightarrow> 'a list" where
  "siftdown_loop lt heap startpos p newitem =
     (if startpos < p
      then (let parentpos = (p - 1) div 2; parent = heap ! parentpos
            in if lt newitem parent
               then siftdown_loop lt (heap[p := parent]) startpos parentpos newitem
               else heap[p := newitem])
      else heap[p := newitem])"
  by pat_completeness auto
termination
  by (relation "measure (\<lambda>(lt, heap, startpos, p, newitem). p)") auto

declare siftdown_loop.simps [simp del]

definition siftdown :: "('a \<Rightarrow> 'a \<Rightarrow> bool) \<Rightarrow> 'a list \<Rightarrow> nat \<Rightarrow> nat \<Rightarrow> 'a list" where
  "siftdown lt heap startpos p = siftdown_loop lt heap startpos p (heap ! p)"

function siftup_loop :: "('a \<Rightarrow> 'a \<Rightarrow> bool) \<Rightarrow> 'a list \<Rightarrow> nat \<Rightarrow> 'a list \<times> nat" where
  "siftup_loop lt heap p =
     (let childpos = 2 * p + 1
      in if childpos < length heap
         then (let rightpos = childpos + 1;
                   childpos = (if rightpos < length heap
                                  \<and> \<not> lt (heap ! childpos) (heap ! rightpos)
                               then rightpos else childpos)
               in siftup_loop lt (heap[p := heap ! childpos]) childpos)
         else (heap, p))"
  by pat_completeness auto
termination
  by (relation "measure (\<lambda>(lt, heap, p). length heap - p)") (auto simp: Let_def)

declare siftup_loop.simps [simp del]

definition siftup :: "('a \<Rightarrow> 'a \<Rightarrow> bool) \<Rightarrow> 'a list \<Rightarrow> nat \<Rightarrow> 'a list" where
  "siftup lt heap p =
     (let newitem = heap ! p
      in case siftup_loop lt heap p of (heap', p') \<Rightarrow>
           siftdown lt (heap'[p' := newitem]) p p')"

definition heapify :: "('a \<Rightarrow> 'a \<Rightarrow> bool) \<Rightarrow> 'a list \<Rightarrow> 'a list" where
  "heapify lt x = fold (\<lambda>i x. siftup lt x i) (rev [0..<length x div 2]) x"

definition heapreplace :: "('a \<Rightarrow> 'a \<Rightarrow> bool) \<Rightarrow> 'a list \<Rightarrow> 'a \<Rightarrow> error + 'a list" where
  "heapreplace lt heap item =
     (if heap = [] then Inl IndexError else Inr (siftup lt (heap[0 := item]) 0))"

subsection \<open>Heap.update\<close>

text \<open>
  The sampled \<open>Heap.Triple\<close> objects are shared with \<open>heap_\<close>: a sampled object is the
  index of its place in \<open>heap_\<close> (which is also its \<open>index_\<close>), and its value is read
  through the current \<open>heap_\<close>. \<open>Triple.__lt__\<close> compares values with \<open>>\<close>.
\<close>

definition Triple_lt :: "Triple list \<Rightarrow> nat \<Rightarrow> nat \<Rightarrow> bool" where
  "Triple_lt heap a b = fless (value_' (heap ! b)) (value_' (heap ! a))"

definition lazy_greedy ::
  "farith \<Rightarrow> summary \<Rightarrow> Triple list \<Rightarrow> nat list
     \<Rightarrow> error + (Triple list \<times> nat \<times> nat)" where
  "lazy_greedy fa S heap sample =
     (let sample = heapify (Triple_lt heap) sample
      in if sample = [] then Inl IndexError
         else (let top = sample ! 0
               in case update_marginal fa S heap top of Inl e \<Rightarrow> Inl e
                  | Inr heap' \<Rightarrow>
                    (case heapreplace (Triple_lt heap') sample top of Inl e \<Rightarrow> Inl e
                     | Inr sample' \<Rightarrow> Inr (heap', top, sample' ! 0))))"

definition move_to_top :: "Triple list \<Rightarrow> nat \<Rightarrow> Triple list" where
  "move_to_top heap argmax =
     heap[length heap - 1 := heap ! argmax, argmax := heap ! (length heap - 1)]"

text \<open>\<open>np.random.randint(0, n, size=m)\<close>: \<open>m\<close> independent draws from \<open>0..n-1\<close>.\<close>

fun randint :: "nat \<Rightarrow> nat \<Rightarrow> nat list \<Rightarrow> nat list \<times> nat list" where
  "randint n 0 rnd = ([], rnd)"
| "randint n (Suc m) rnd =
     (case draw rnd of (d, rnd') \<Rightarrow>
        (case randint n m rnd' of (ds, rnd'') \<Rightarrow> ((d mod n) # ds, rnd'')))"

text \<open>
  The sample of one \<open>update\<close>: \<open>randint\<close> rejects a negative size, \<open>np.arange(n)\<close> is the
  whole index range.
\<close>

definition sample_indices :: "nat \<Rightarrow> int \<Rightarrow> nat list \<Rightarrow> error + (nat list \<times> nat list)" where
  "sample_indices n sample_size rnd =
     (if sample_size < int n
      then (if sample_size < 0 then Inl ValueError
            else Inr (randint n (nat sample_size) rnd))
      else Inr ([0..<n], rnd))"

fun update_loop ::
  "farith \<Rightarrow> summary \<Rightarrow> nat list \<Rightarrow> Triple list \<Rightarrow> nat
     \<Rightarrow> error + (Triple list \<times> nat)" where
  "update_loop fa S [] heap argmax = Inr (heap, argmax)"
| "update_loop fa S (i # indices) heap argmax =
     (case triple_' (heap ! i) of (e1, r, e2) \<Rightarrow>
        (case (if has_entity S e1 \<or> has_entity S e2 then update_marginal fa S heap i
               else Inr heap) of Inl e \<Rightarrow> Inl e
         | Inr heap' \<Rightarrow>
             update_loop fa S indices heap'
               (if fless (value_' (heap' ! argmax)) (value_' (heap' ! i)) then i
                else argmax)))"

text \<open>
  \<open>update\<close> returns the new \<open>heap_\<close> and the rest of the draws. Its third result is not a
  value of the code: it reports the local \<open>indices\<close> of the call, the sample, and is \<open>None\<close>
  when the call returns before sampling.
\<close>

definition update ::
  "farith \<Rightarrow> Triple list \<Rightarrow> summary \<Rightarrow> int \<Rightarrow> nat list
     \<Rightarrow> error + (Triple list \<times> nat list \<times> nat list option)" where
  "update fa heap S sample_size rnd =
     (let n = length heap;
          sample_size = min (int n) sample_size
      in if n \<le> 1 \<or> sample_size = 0 then Inr (heap, rnd, None)
         else (case sample_indices n sample_size rnd of Inl e \<Rightarrow> Inl e
           | Inr (indices, rnd') \<Rightarrow>
             (case lazy_greedy fa S heap indices of Inl e \<Rightarrow> Inl e
              | Inr (heap1, before, after) \<Rightarrow>
                  if triple_' (heap1 ! before) = triple_' (heap1 ! after)
                  then Inr (move_to_top heap1 after, rnd', Some indices)
                  else (case update_loop fa S indices heap1 0 of Inl e \<Rightarrow> Inl e
                    | Inr (heap2, argmax) \<Rightarrow>
                        Inr (move_to_top heap2 argmax, rnd', Some indices)))))"

text \<open>An \<open>update\<close> only rewrites values and swaps two places of \<open>heap_\<close>.\<close>

lemma update_marginal_map:
  "update_marginal fa S heap i = Inr heap' \<Longrightarrow> map triple_' heap' = map triple_' heap"
proof -
  assume u: "update_marginal fa S heap i = Inr heap'"
  have "(map triple_' heap)[i := triple_' (heap ! i)] = map triple_' heap"
    by (cases "i < length heap") (simp_all add: list_update_same_conv list_update_beyond)
  with u show ?thesis
    by (auto simp: update_marginal_def map_update split: sum.splits)
qed

lemma lazy_greedy_map:
  "lazy_greedy fa S heap sample = Inr (heap', b, a)
     \<Longrightarrow> map triple_' heap' = map triple_' heap"
  by (auto simp: lazy_greedy_def Let_def split: if_splits sum.splits
           dest: update_marginal_map)

lemma update_loop_map:
  "update_loop fa S indices heap argmax = Inr (heap', am)
     \<Longrightarrow> map triple_' heap' = map triple_' heap"
proof (induction indices arbitrary: heap argmax)
  case Nil
  then show ?case by simp
next
  case (Cons i indices)
  then show ?case
    by (auto split: prod.splits sum.splits if_splits dest: update_marginal_map)
qed

lemma update_length:
  "update fa heap S sample_size rnd = Inr (heap', rnd', sample)
     \<Longrightarrow> length heap' = length heap"
proof -
  assume u: "update fa heap S sample_size rnd = Inr (heap', rnd', sample)"
  have m: "\<And>h a. length (move_to_top h a) = length h"
    by (simp add: move_to_top_def)
  have l: "\<And>h h'. map triple_' h' = map triple_' h \<Longrightarrow> length h' = length h"
    by (metis length_map)
  from u show ?thesis
    by (auto simp: update_def Let_def m split: if_splits sum.splits prod.splits
             dest!: lazy_greedy_map update_loop_map l)
qed

section \<open>GLIMPSE (glimpse.py)\<close>

text \<open>Python's \<open>int\<close> of a float truncates towards zero.\<close>

definition py_int :: "real \<Rightarrow> int" where
  "py_int x = (if 0 \<le> x then \<lfloor>x\<rfloor> else \<lceil>x\<rceil>)"

text \<open>
  \<open>len(heap) if epsilon is None else int(len(heap) / K * np.log(1 / epsilon))\<close>: the two
  divisions are Python's, they raise on a zero divisor and round their quotient; the
  product is a float64 product; \<open>int\<close> raises on NaN and on an infinity.
\<close>

definition sample_size_of :: "farith \<Rightarrow> nat \<Rightarrow> nat \<Rightarrow> npfloat option \<Rightarrow> error + int" where
  "sample_size_of fa n K epsilon =
     (case epsilon of None \<Rightarrow> Inr (int n)
      | Some eps \<Rightarrow>
        if K = 0 then Inl ZeroDivisionError
        else if eps = Fin 0 then Inl ZeroDivisionError
        else (case rmul fa (fl fa (real n / real K)) (np_log fa (rdiv fa (Fin 1) eps)) of
                Fin x \<Rightarrow> Inr (py_int x)
              | NaN \<Rightarrow> Inl ValueError
              | PInf \<Rightarrow> Inl OverflowError
              | NInf \<Rightarrow> Inl OverflowError))"

text \<open>
  A history is the current summary and its earlier states. The \<open>while\<close> loop returns the
  history, with the exception when one is raised. It also returns a log with one entry for
  each \<open>heap.update\<close> call of the loop, in the order of the calls: the number of candidates
  at the call, the sample size passed to it, and the sample the call reported.
\<close>

type_synonym history = "summary \<times> summary list"

type_synonym sample_log = "(nat \<times> int \<times> nat list option) list"

definition states :: "history \<Rightarrow> summary list" where
  "states hist = fst hist # snd hist"

definition fill_hist :: "history \<Rightarrow> triple list \<Rightarrow> nat \<Rightarrow> history" where
  "fill_hist hist ts k = (case fill (states hist) ts k of S # h \<Rightarrow> (S, h) | [] \<Rightarrow> hist)"

function select_loop ::
  "farith \<Rightarrow> int \<Rightarrow> nat \<Rightarrow> Triple list \<Rightarrow> history \<Rightarrow> sample_log \<Rightarrow> nat list
     \<Rightarrow> (history \<times> sample_log \<times> error) + (history \<times> sample_log)" where
  "select_loop fa sample_size K heap hist lg rnd =
     (if heap \<noteq> [] \<and> number_of_triples (fst hist) < K
      then (case pop heap of Inl e \<Rightarrow> Inl (hist, lg, e)
        | Inr (triple, heap1) \<Rightarrow>
          (let S = add_triple triple (fst hist);
               hist1 = (S, states hist)
           in case update fa heap1 S sample_size rnd of Inl e \<Rightarrow> Inl (hist1, lg, e)
              | Inr (heap2, rnd', sample) \<Rightarrow>
                  select_loop fa sample_size K heap2 hist1
                    (lg @ [(length heap1, sample_size, sample)]) rnd'))
      else Inr (hist, lg))"
  by pat_completeness auto
termination
  by (relation "measure (\<lambda>(fa, sample_size, K, heap, hist, lg, rnd). length heap)")
     (auto simp: pop_def dest!: update_length split: if_splits)

declare select_loop.simps [simp del]

text \<open>
  The body of \<open>GLIMPSE\<close> after the call of \<open>model_user_pref\<close>, on the scored graph: every
  state the summary went through (none if the run failed before the summary was created),
  the log of the samples, and the exception if one was raised. The summary carries the
  scored graph as its parent.
\<close>

definition GLIMPSE_select ::
  "farith \<Rightarrow> kg \<Rightarrow> nat \<Rightarrow> npfloat option \<Rightarrow> nat list
     \<Rightarrow> summary list \<times> sample_log \<times> error option" where
  "GLIMPSE_select fa KG K epsilon rnd =
     (case Heap fa KG of Inl e \<Rightarrow> ([], [], Some e)
      | Inr heap \<Rightarrow>
        (let S = Summary KG
         in case (if length heap \<le> K
                  then Inr (fill_hist (S, []) (heap_triples heap) K, [])
                  else (case update fa heap S (int (length heap)) rnd of
                          Inl e \<Rightarrow> Inl ((S, []), [], e)
                        | Inr (heap1, rnd1, sample) \<Rightarrow>
                          (case sample_size_of fa (length heap1) K epsilon of
                             Inl e \<Rightarrow> Inl ((S, []), [], e)
                           | Inr sample_size \<Rightarrow>
                               select_loop fa sample_size K heap1 (S, []) [] rnd1))) of
              Inl (hist, lg, e) \<Rightarrow> (states hist, lg, Some e)
            | Inr (hist, lg) \<Rightarrow> (states (fill_hist hist (triples KG) K), lg, None)))"

text \<open>A run of \<open>GLIMPSE\<close>, and the summary it returns.\<close>

definition GLIMPSE_run ::
  "farith \<Rightarrow> kg \<Rightarrow> nat \<Rightarrow> query list \<Rightarrow> npfloat option \<Rightarrow> nat \<Rightarrow> nat list
     \<Rightarrow> summary list \<times> sample_log \<times> error option" where
  "GLIMPSE_run fa KG0 K query_log epsilon power_n rnd =
     (case model_user_pref fa KG0 query_log power_n of Inl e \<Rightarrow> ([], [], Some e)
      | Inr KG \<Rightarrow> GLIMPSE_select fa KG K epsilon rnd)"

definition GLIMPSE ::
  "farith \<Rightarrow> kg \<Rightarrow> nat \<Rightarrow> query list \<Rightarrow> npfloat option \<Rightarrow> nat \<Rightarrow> nat list
     \<Rightarrow> error + summary" where
  "GLIMPSE fa KG K query_log epsilon power_n rnd =
     (case GLIMPSE_run fa KG K query_log epsilon power_n rnd of
        (hist, lg, Some e) \<Rightarrow> Inl e
      | (hist, lg, None) \<Rightarrow> Inr (hd hist))"

section \<open>Example inputs\<close>

definition friends_kg :: kg where
  "friends_kg = kg_of [(''A'', ''friend'', ''B''), (''B'', ''friend'', ''C''),
                       (''B'', ''age'', ''30'')]"

definition friends_query :: "constraint list \<Rightarrow> query" where
  "friends_query cs =
     \<lparr> QuestionId = ''0'',
       Parse = \<lparr> TopicEntityMid = ''A'', TopicEntityName = ''A'',
                 InferentialChain = [''friend'', ''friend''],
                 Constraints = cs, Answers = [] \<rparr> \<rparr>"

definition age_constraint :: "nat \<Rightarrow> string \<Rightarrow> constraint" where
  "age_constraint hop v =
     \<lparr> SourceNodeIndex = hop, NodePredicate = ''age'', Argument = v, EntityName = ''B'' \<rparr>"

section \<open>Well-formed graphs\<close>

text \<open>
  The invariant of a graph built by \<open>add_triple\<close>: the adjacency lists have no duplicate
  keys or objects, the counter is the number of triples, and the entity with ID \<open>i\<close> is the
  \<open>i\<close>-th inserted one.
\<close>

definition inner :: "string \<Rightarrow> (string \<times> string list) list \<Rightarrow> triple list" where
  "inner e1 d = concat (map (\<lambda>(r, os). map (\<lambda>e2. (e1, r, e2)) os) d)"

definition flat :: "(string \<times> (string \<times> string list) list) list \<Rightarrow> triple list" where
  "flat ts = concat (map (\<lambda>(e1, d). inner e1 d) ts)"

definition wf_adj :: "(string \<times> (string \<times> string list) list) list \<Rightarrow> bool" where
  "wf_adj ts = (distinct (map fst ts) \<and>
     list_all (\<lambda>(e1, d). distinct (map fst d)
                 \<and> list_all (\<lambda>(r, os). distinct os \<and> os \<noteq> []) d) ts)"

definition ents :: "triple set \<Rightarrow> string set" where
  "ents X = (\<lambda>(e1, r, e2). e1) ` X \<union> (\<lambda>(e1, r, e2). e2) ` X"

definition ent_ok :: "'a kg_scheme \<Rightarrow> bool" where
  "ent_ok KG = (distinct (entities_' KG) \<and> eid_' KG = length (entities_' KG)
     \<and> (\<forall>e i. entity_id_' KG e = Some i \<longleftrightarrow> i < length (entities_' KG) \<and> entities_' KG ! i = e)
     \<and> (\<forall>i. id_entity_' KG i =
            (if i < length (entities_' KG) then Some (entities_' KG ! i) else None)))"

definition wf_kg :: "'a kg_scheme \<Rightarrow> bool" where
  "wf_kg KG = (wf_adj (triples_' KG) \<and> number_of_triples_' KG = length (triples KG)
     \<and> ent_ok KG \<and> set (entities_' KG) = ents (set (triples KG)))"

section \<open>Definitions that follow the specification\<close>

text \<open>
  The objective of the selection, in the words of the specification:
  \<open>f(X)\<close> is the sum of the entity values over the distinct entities touched by the
  triples of \<open>X\<close>, plus the sum of the triple values over \<open>X\<close>.
\<close>

definition objective :: "(string \<Rightarrow> real) \<Rightarrow> (triple \<Rightarrow> real) \<Rightarrow> triple set \<Rightarrow> real" where
  "objective ev tv X = (\<Sum>e \<in> ents X. ev e) + (\<Sum>u \<in> X. tv u)"

text \<open>
  The transition matrix, in the words of the specification: \<open>A\<^sup>T \<cdot> D\<^sup>-\<^sup>1\<close>, with \<open>D\<close> the
  diagonal matrix of the out-degrees (row sums) of the adjacency matrix \<open>A\<close>; an entity
  without outgoing edge has no diagonal entry, so its column is zero.
\<close>

definition row_sum :: "spmatrix \<Rightarrow> nat \<Rightarrow> npfloat list" where
  "row_sum A i = concat (map (\<lambda>j. stored (snd A (i, j))) [0..<fst A])"

definition inverse_degree :: "spmatrix \<Rightarrow> spmatrix" where
  "inverse_degree A = (fst A, \<lambda>(i, j).
     if i = j \<and> row_sum A i \<noteq> [] then Some (fdiv (Fin 1) (fsum (row_sum A i))) else None)"

definition column_stochastic_transition :: "spmatrix \<Rightarrow> error + spmatrix" where
  "column_stochastic_transition A = matmul (transpose A) (inverse_degree A)"

definition column :: "spmatrix \<Rightarrow> nat \<Rightarrow> npfloat list" where
  "column T j = concat (map (\<lambda>i. stored (snd T (i, j))) [0..<fst T])"

section \<open>More example inputs\<close>

definition fork_kg :: kg where
  "fork_kg = kg_of [(''a'', ''r'', ''b''), (''a'', ''r'', ''c'')]"

text \<open>A graph with one self-loop, every value \<open>log 2\<close>.\<close>

definition loop_kg :: kg where
  "loop_kg = (kg_of [(''a'', ''r'', ''a'')])
     \<lparr> entity_value_' := Some [''a'' \<mapsto> Fin (ln 2)],
       triple_value_' := Some [(''a'', ''r'', ''a'') \<mapsto> Fin (ln 2)] \<rparr>"

definition loop_ev :: "string \<Rightarrow> real" where
  "loop_ev e = (if e = ''a'' then ln 2 else 0)"

definition loop_tv :: "triple \<Rightarrow> real" where
  "loop_tv t = (if t = (''a'', ''r'', ''a'') then ln 2 else 0)"

definition topic_query :: "string \<Rightarrow> query" where
  "topic_query topic =
     \<lparr> QuestionId = ''0'',
       Parse = \<lparr> TopicEntityMid = topic, TopicEntityName = topic,
                 InferentialChain = [], Constraints = [], Answers = [] \<rparr> \<rparr>"

definition edge_kg :: kg where
  "edge_kg = kg_of [(''a'', ''r'', ''b'')]"

section \<open>The invariant of the summary under construction\<close>

definition summary_ok :: "nat \<Rightarrow> triple set \<Rightarrow> summary \<Rightarrow> bool" where
  "summary_ok K T S = (wf_kg S \<and> set (triples S) \<subseteq> T \<and> length (triples S) \<le> K)"

section \<open>The walk in the words of the specification\<close>

text \<open>
  The seed vector: the coordinate of an entity ID accumulates one unit for each query of
  the workload whose topic entity has this ID.
\<close>

definition seed_vector :: "farith \<Rightarrow> 'a kg_scheme \<Rightarrow> query list \<Rightarrow> npfloat list" where
  "seed_vector fa KG query_log =
     map (\<lambda>i. ((\<lambda>v. radd fa v (Fin 1)) ^^ (length (filter (\<lambda>query.
            entity_id_' KG (TopicEntityMid (Parse query)) = Some i) query_log))) (Fin 0))
       [0..<number_of_entities KG]"

definition mat_vec :: "farith \<Rightarrow> spmatrix \<Rightarrow> npfloat list \<Rightarrow> npfloat list" where
  "mat_vec fa M q =
     map (\<lambda>i. sp_dot fa (concat (map (\<lambda>k. map (\<lambda>a. (a, q ! k)) (stored (snd M (i, k))))
                                    [0..<fst M])))
       [0..<fst M]"

text \<open>
  One iteration: \<open>q \<leftarrow> (1 - c) \<cdot> T \<cdot> q\<close>, \<open>r \<leftarrow> r + q\<close>, \<open>r \<leftarrow> r / sum(r)\<close>; the walk is \<open>power\<close>
  iterations from \<open>q = r = c \<cdot> x0\<close>.
\<close>

definition walk_step :: "farith \<Rightarrow> npfloat \<Rightarrow> spmatrix \<Rightarrow> npfloat list \<times> npfloat list
    \<Rightarrow> npfloat list \<times> npfloat list" where
  "walk_step fa c T qr =
     (let q = mat_vec fa (scale fa (radd fa (Fin 1) (fneg c)) T) (fst qr);
          r = map2 (radd fa) (snd qr) q
      in (q, map (\<lambda>v. rdiv fa v (np_sum fa r)) r))"

definition walk_vector ::
  "farith \<Rightarrow> spmatrix \<Rightarrow> npfloat list \<Rightarrow> npfloat \<Rightarrow> nat \<Rightarrow> npfloat list" where
  "walk_vector fa T x0 c power_n =
     snd ((walk_step fa c T ^^ power_n) (map (rmul fa c) x0, map (rmul fa c) x0))"

text \<open>The finite value of a float, and the tests for a finite float that is at least 0.\<close>

fun real_of :: "npfloat \<Rightarrow> real" where
  "real_of (Fin a) = a"
| "real_of _ = 0"

fun nonneg :: "npfloat \<Rightarrow> bool" where
  "nonneg (Fin a) = (0 \<le> a)"
| "nonneg _ = False"

fun positive :: "npfloat \<Rightarrow> bool" where
  "positive (Fin a) = (0 < a)"
| "positive _ = False"

text \<open>The entities that a directed path leads to from a topic of the workload.\<close>

definition edges :: "'a kg_scheme \<Rightarrow> (string \<times> string) set" where
  "edges KG = (\<lambda>(e1, r, e2). (e1, e2)) ` set (triples KG)"

definition topics :: "query list \<Rightarrow> string set" where
  "topics query_log = (\<lambda>query. TopicEntityMid (Parse query)) ` set query_log"

definition reachable :: "'a kg_scheme \<Rightarrow> query list \<Rightarrow> string set" where
  "reachable KG query_log = (edges KG)\<^sup>* `` topics query_log"

section \<open>The marginal value in the words of the specification\<close>

text \<open>
  The terms \<open>entity_value(e1)\<cdot>[e1 \<notin> S]\<close>, \<open>entity_value(e2)\<cdot>[e2 \<notin> S]\<close> and
  \<open>triple_value(t)\<cdot>[t \<notin> S]\<close> whose indicator is 1, in this order, for the triple set \<open>X\<close>
  of \<open>S\<close>; and the float sum of a list of terms, accumulated from 0 from left to right.
\<close>

definition marginal_terms ::
  "(string \<Rightarrow> npfloat) \<Rightarrow> (triple \<Rightarrow> npfloat) \<Rightarrow> triple set \<Rightarrow> triple \<Rightarrow> npfloat list" where
  "marginal_terms ev tv X t = (case t of (e1, r, e2) \<Rightarrow>
     (if e1 \<in> ents X then [] else [ev e1]) @ (if e2 \<in> ents X then [] else [ev e2])
       @ (if t \<in> X then [] else [tv t]))"

definition float_sum :: "farith \<Rightarrow> npfloat list \<Rightarrow> npfloat" where
  "float_sum fa xs = foldl (radd fa) (Fin 0) xs"

text \<open>
  A graph annotated with dyadic values, whose sums are exact in float64, and the summary
  over it that holds the triple \<open>(a, r, b)\<close>.
\<close>

definition dyadic_kg :: kg where
  "dyadic_kg = (kg_of [(''a'', ''r'', ''b''), (''b'', ''r'', ''c''), (''a'', ''r'', ''a'')])
     \<lparr> entity_value_' := Some [''a'' \<mapsto> Fin (1 / 2), ''b'' \<mapsto> Fin (1 / 4), ''c'' \<mapsto> Fin (1 / 8)],
       triple_value_' := Some [(''a'', ''r'', ''b'') \<mapsto> Fin (1 / 16),
                               (''b'', ''r'', ''c'') \<mapsto> Fin (1 / 32),
                               (''a'', ''r'', ''a'') \<mapsto> Fin (1 / 64)] \<rparr>"

definition dyadic_ev :: "string \<Rightarrow> real" where
  "dyadic_ev e = (if e = ''a'' then 1 / 2 else if e = ''b'' then 1 / 4
                  else if e = ''c'' then 1 / 8 else 0)"

definition dyadic_tv :: "triple \<Rightarrow> real" where
  "dyadic_tv t = (if t = (''a'', ''r'', ''b'') then 1 / 16
                  else if t = (''b'', ''r'', ''c'') then 1 / 32
                  else if t = (''a'', ''r'', ''a'') then 1 / 64 else 0)"

definition dyadic_summary :: summary where
  "dyadic_summary = fold add_triple [(''a'', ''r'', ''b'')] (Summary dyadic_kg)"

section \<open>The sample in the words of the specification\<close>

text \<open>
  A call of \<open>update\<close> with \<open>n\<close> candidates and the sample size \<open>sample_size\<close>: with
  \<open>m = min(n, sample_size)\<close>, nothing is sampled when \<open>n \<le> 1\<close> or \<open>m = 0\<close>; otherwise the
  sample has \<open>m\<close> indices of the index range \<open>0..n-1\<close>, and is the whole range, in order,
  when the sample size is at least \<open>n\<close>.
\<close>

definition sample_ok :: "nat \<Rightarrow> int \<Rightarrow> nat list option \<Rightarrow> bool" where
  "sample_ok n sample_size s =
     (let m = min (int n) sample_size
      in if n \<le> 1 \<or> m = 0 then s = None
         else (case s of None \<Rightarrow> False
               | Some idx \<Rightarrow> int (length idx) = m \<and> list_all (\<lambda>i. i < n) idx
                             \<and> (int n \<le> sample_size \<longrightarrow> idx = [0..<n])))"

text \<open>
  The log of a loop entered with \<open>n\<close> candidates: every iteration pops one candidate and
  then samples among the remaining ones, with the same sample size at every iteration.
\<close>

fun log_ok :: "nat \<Rightarrow> int \<Rightarrow> sample_log \<Rightarrow> bool" where
  "log_ok n sample_size [] = True"
| "log_ok n sample_size ((n', sample_size', s) # lg) =
     (0 < n \<and> n' = n - 1 \<and> sample_size' = sample_size \<and> sample_ok n' sample_size s
      \<and> log_ok n' sample_size lg)"

section \<open>Inputs of the example runs\<close>

text \<open>
  For the examples that run the whole of \<open>GLIMPSE\<close>: the arithmetic that rounds nothing
  and takes \<open>x - 1\<close>, the tangent of the logarithm at 1, for \<open>log x\<close>, so that every value
  is a rational number; and a graph with four edges from one entity.
\<close>

declare flog.simps [code del]

definition tangent_log :: farith where
  "tangent_log = exact\<lparr> np_log := (\<lambda>x. fadd x (Fin (- 1))) \<rparr>"

definition star_kg :: kg where
  "star_kg = kg_of [(''a'', ''r'', ''b''), (''a'', ''r'', ''c''), (''a'', ''r'', ''d''),
                    (''a'', ''r'', ''e'')]"

(* PROPERTIES *)

section \<open>Query answering\<close>

lemma friends_kg_triples:
  "triples_' friends_kg =
     [(''A'', [(''friend'', [''B''])]), (''B'', [(''friend'', [''C'']), (''age'', [''30''])])]"
  by code_simp

lemmas answer_eval =
  answer_query_def friends_query_def age_constraint_def friends_kg_triples
  add_candidates_def objects_def remove_of_def misfit_def Let_def

text \<open>
  Claim C8, as stated: with the constraint \<open>{hop: 1, relation: age, value: 30}\<close> the
  answer is still \<open>{C}\<close>. It is not: the hops are counted from 0, so a constraint at hop 1
  is tested on the candidates of the second hop, and \<open>C\<close> has no \<open>age\<close> edge.
\<close>

theorem C8_hop1_counterexample:
  "answer_query friends_kg (friends_query [age_constraint 1 ''30'']) \<noteq> {''C''}"
  by (simp add: answer_eval)

text \<open>
  Claim C8, amended: on the graph \<open>{(A, friend, B), (B, friend, C), (B, age, 30)}\<close> the
  query with topic \<open>A\<close> and chain \<open>[friend, friend]\<close> has the answer \<open>{C}\<close> without
  constraints; with the constraint \<open>age = 30\<close> on the candidate \<open>B\<close>, which is the
  constraint at hop index 0, the answer is still \<open>{C}\<close>; with the value 31 it is empty;
  and no answer set of any graph and query contains the topic entity.
\<close>

theorem C8_friends_scenario:
  "answer_query friends_kg (friends_query []) = {''C''}
   \<and> answer_query friends_kg (friends_query [age_constraint 0 ''30'']) = {''C''}
   \<and> answer_query friends_kg (friends_query [age_constraint 0 ''31'']) = {}
   \<and> TopicEntityMid (Parse q) \<notin> answer_query KG q"
  by (simp add: answer_eval)

section \<open>The invariant of the graph store\<close>

lemma triples_flat: "triples KG = flat (triples_' KG)"
  by (simp add: triples_def flat_def inner_def)

lemma in_inner:
  "(a, r, e2) \<in> set (inner e1 d) \<longleftrightarrow> a = e1 \<and> (\<exists>os. (r, os) \<in> set d \<and> e2 \<in> set os)"
  unfolding inner_def by (induction d) auto

lemma in_flat:
  "(e1, r, e2) \<in> set (flat ts) \<longleftrightarrow> (\<exists>d os. (e1, d) \<in> set ts \<and> (r, os) \<in> set d \<and> e2 \<in> set os)"
  unfolding flat_def by (induction ts) (auto simp: in_inner)

lemma in_flat_map_of:
  assumes "wf_adj ts"
  shows "(e1, r, e2) \<in> set (flat ts) \<longleftrightarrow>
    (\<exists>d os. map_of ts e1 = Some d \<and> map_of d r = Some os \<and> e2 \<in> set os)"
proof -
  have d1: "distinct (map fst ts)" using assms by (simp add: wf_adj_def)
  have d2: "\<And>d. (e1, d) \<in> set ts \<Longrightarrow> distinct (map fst d)"
    using assms by (auto simp: wf_adj_def list_all_iff)
  show ?thesis
    unfolding in_flat using d1 d2
    by (metis map_of_eq_Some_iff)
qed

lemma distinct_inner:
  "distinct (map fst d) \<Longrightarrow> list_all (\<lambda>(r, os). distinct os) d \<Longrightarrow> distinct (inner e1 d)"
proof (induction d)
  case Nil then show ?case by (simp add: inner_def)
next
  case (Cons p d)
  obtain r os where p: "p = (r, os)" by (cases p)
  have i: "inner e1 (p # d) = map (\<lambda>e2. (e1, r, e2)) os @ inner e1 d"
    by (simp add: inner_def p)
  have "\<And>e2. (e1, r, e2) \<notin> set (inner e1 d)"
    using Cons.prems(1) p by (auto simp: in_inner image_iff)
  with Cons p show ?case unfolding i
    by (auto simp: distinct_map inj_on_def)
qed

lemma distinct_flat: "wf_adj ts \<Longrightarrow> distinct (flat ts)"
proof (induction ts)
  case Nil then show ?case by (simp add: flat_def)
next
  case (Cons p ts)
  obtain e1 d where p: "p = (e1, d)" by (cases p)
  have w: "wf_adj ts" using Cons.prems by (simp add: wf_adj_def)
  have f: "flat (p # ts) = inner e1 d @ flat ts"
    by (simp add: flat_def p)
  have c: "e1 \<notin> fst ` set ts" using Cons.prems p by (simp add: wf_adj_def)
  have a: "\<And>x. x \<in> set (flat ts) \<Longrightarrow> x \<notin> set (inner e1 d)"
  proof -
    fix x assume x: "x \<in> set (flat ts)"
    obtain a r b where xx: "x = (a, r, b)" by (cases x)
    from x xx obtain d' where "(a, d') \<in> set ts" by (auto simp: in_flat)
    then have "a \<in> fst ` set ts" by force
    with c have "a \<noteq> e1" by auto
    then show "x \<notin> set (inner e1 d)" by (simp add: xx in_inner)
  qed
  have "distinct (inner e1 d)"
    using Cons.prems p by (intro distinct_inner) (auto simp: wf_adj_def list_all_iff)
  with Cons.IH[OF w] a show ?case unfolding f by auto
qed

lemma set_update_subset: "set (AList.update k v al) \<subseteq> insert (k, v) (set al)"
  by (induction al) auto

lemma wf_adj_lookup:
  "wf_adj ts \<Longrightarrow> map_of ts e1 = Some d
     \<Longrightarrow> distinct (map fst d) \<and> list_all (\<lambda>(r, os). distinct os \<and> os \<noteq> []) d"
  by (auto simp: wf_adj_def list_all_iff dest!: map_of_SomeD)

lemma wf_adj_lookup2:
  "wf_adj ts \<Longrightarrow> map_of ts e1 = Some d \<Longrightarrow> map_of d r = Some os
     \<Longrightarrow> distinct os \<and> os \<noteq> []"
  by (auto simp: wf_adj_def list_all_iff dest!: map_of_SomeD)

lemma wf_adj_insert_edge: "wf_adj ts \<Longrightarrow> wf_adj (insert_edge t ts)"
proof -
  assume w: "wf_adj ts"
  obtain e1 r e2 where t: "t = (e1, r, e2)" by (cases t)
  define d where "d = (case map_of ts e1 of None \<Rightarrow> [] | Some d \<Rightarrow> d)"
  define os where "os = (case map_of d r of None \<Rightarrow> [] | Some os \<Rightarrow> os)"
  have dd: "distinct (map fst d) \<and> list_all (\<lambda>(r, os). distinct os \<and> os \<noteq> []) d"
    using w wf_adj_lookup by (auto simp: d_def split: option.splits)
  have dos: "distinct os"
    using dd by (auto simp: os_def list_all_iff split: option.splits dest!: map_of_SomeD)
  define d' where "d' = AList.update r (List.insert e2 os) d"
  have eld: "\<And>p. p \<in> set d' \<Longrightarrow> p = (r, List.insert e2 os) \<or> p \<in> set d"
    using set_update_subset[of r "List.insert e2 os" d] unfolding d'_def by blast
  have "\<And>p. p \<in> set d' \<Longrightarrow> (case p of (r, os) \<Rightarrow> distinct os \<and> os \<noteq> [])"
  proof -
    fix p assume "p \<in> set d'"
    have ne: "List.insert e2 os \<noteq> []"
      by (cases os) (auto simp: List.insert_def)
    from eld[OF \<open>p \<in> set d'\<close>] show "case p of (r, os) \<Rightarrow> distinct os \<and> os \<noteq> []"
      using dd dos ne by (auto simp: list_all_iff)
  qed
  then have d': "distinct (map fst d') \<and> list_all (\<lambda>(r, os). distinct os \<and> os \<noteq> []) d'"
    using dd by (simp add: d'_def distinct_update list_all_iff)
  have ie: "insert_edge t ts = AList.update e1 d' ts"
    by (simp add: insert_edge_def t d_def os_def d'_def Let_def)
  have el: "\<And>p. p \<in> set (AList.update e1 d' ts) \<Longrightarrow> p = (e1, d') \<or> p \<in> set ts"
    using set_update_subset[of e1 d' ts] by blast
  have "distinct (map fst (AList.update e1 d' ts))"
    using w by (simp add: wf_adj_def distinct_update)
  moreover have "\<And>p. p \<in> set (AList.update e1 d' ts) \<Longrightarrow>
      (case p of (e1, d) \<Rightarrow> distinct (map fst d)
         \<and> list_all (\<lambda>(r, os). distinct os \<and> os \<noteq> []) d)"
  proof -
    fix p assume "p \<in> set (AList.update e1 d' ts)"
    from el[OF this] show "case p of (e1, d) \<Rightarrow> distinct (map fst d)
         \<and> list_all (\<lambda>(r, os). distinct os \<and> os \<noteq> []) d"
      using w d' by (auto simp: wf_adj_def list_all_iff)
  qed
  ultimately show ?thesis
    unfolding ie by (simp add: wf_adj_def list_all_iff)
qed

lemma has_triple_iff: "wf_adj (triples_' KG) \<Longrightarrow> has_triple KG t \<longleftrightarrow> t \<in> set (triples KG)"
  by (cases t) (auto simp: has_triple_def triples_flat in_flat_map_of split: option.splits)

lemma set_flat_insert_edge:
  assumes w: "wf_adj ts"
  shows "set (flat (insert_edge t ts)) = insert t (set (flat ts))"
proof -
  obtain e1 r e2 where t: "t = (e1, r, e2)" by (cases t)
  define d where "d = (case map_of ts e1 of None \<Rightarrow> [] | Some d \<Rightarrow> d)"
  define os where "os = (case map_of d r of None \<Rightarrow> [] | Some os \<Rightarrow> os)"
  define d' where "d' = AList.update r (List.insert e2 os) d"
  have ie: "insert_edge (e1, r, e2) ts = AList.update e1 d' ts"
    by (simp add: insert_edge_def d_def os_def d'_def Let_def)
  have w': "wf_adj (AList.update e1 d' ts)"
    using wf_adj_insert_edge[OF w, of "(e1, r, e2)"] ie by simp
  have m1: "map_of (AList.update e1 d' ts) = (map_of ts)(e1 \<mapsto> d')"
    by (simp add: update_conv')
  have m2: "map_of d' = (map_of d)(r \<mapsto> List.insert e2 os)"
    by (simp add: d'_def update_conv')
  have h: "\<And>a p b. (a, p, b) \<in> set (flat (AList.update e1 d' ts))
          \<longleftrightarrow> (a, p, b) = (e1, r, e2) \<or> (a, p, b) \<in> set (flat ts)"
    unfolding in_flat_map_of[OF w'] in_flat_map_of[OF w] m1
    by (auto simp: m2 d_def os_def split: option.splits if_splits)
  show ?thesis unfolding t ie by (auto simp: h)
qed

lemma ent_ok_record_entity: "ent_ok KG \<Longrightarrow> ent_ok (record_entity e KG)"
  unfolding ent_ok_def record_entity_def has_entity_def
  by (auto simp: nth_append less_Suc_eq in_set_conv_nth)

lemma set_record_entity: "set (entities_' (record_entity e KG)) = insert e (set (entities_' KG))"
  by (auto simp: record_entity_def has_entity_def)

lemma record_entity_other [simp]:
  "triples_' (record_entity e KG) = triples_' KG"
  "number_of_triples_' (record_entity e KG) = number_of_triples_' KG"
  "entity_value_' (record_entity e KG) = entity_value_' KG"
  "triple_value_' (record_entity e KG) = triple_value_' KG"
  by (simp_all add: record_entity_def)

lemma add_triple_fields:
  "\<not> has_triple KG (e1, r, e2) \<Longrightarrow>
     triples_' (add_triple (e1, r, e2) KG) = insert_edge (e1, r, e2) (triples_' KG)
   \<and> number_of_triples_' (add_triple (e1, r, e2) KG) = number_of_triples_' KG + 1
   \<and> set (entities_' (add_triple (e1, r, e2) KG)) = insert e1 (insert e2 (set (entities_' KG)))"
  by (auto simp: add_triple_def Let_def set_record_entity)

lemma ent_ok_upd [simp]:
  "ent_ok (KG\<lparr> triples_' := x \<rparr>) = ent_ok KG"
  "ent_ok (KG\<lparr> number_of_triples_' := n, relationships_' := rs \<rparr>) = ent_ok KG"
  by (simp_all add: ent_ok_def)

lemma ent_ok_add_triple: "ent_ok KG \<Longrightarrow> ent_ok (add_triple t KG)"
  by (cases t) (simp add: add_triple_def Let_def ent_ok_record_entity)

lemma ents_insert: "ents (insert (e1, r, e2) X) = insert e1 (insert e2 (ents X))"
  by (auto simp: ents_def)

lemma wf_kg_add_triple: "wf_kg KG \<Longrightarrow> wf_kg (add_triple t KG)"
proof (cases "has_triple KG t")
  case True
  assume "wf_kg KG"
  with True show ?thesis by (cases t) (simp add: add_triple_def)
next
  case False
  assume w: "wf_kg KG"
  obtain e1 r e2 where t: "t = (e1, r, e2)" by (cases t)
  note f = add_triple_fields[OF False[unfolded t]]
  have wa: "wf_adj (triples_' KG)" using w by (simp add: wf_kg_def)
  have nt: "t \<notin> set (triples KG)" using False has_triple_iff[OF wa] by simp
  have s: "set (triples (add_triple t KG)) = insert t (set (triples KG))"
    by (simp add: triples_flat t f set_flat_insert_edge[OF wa])
  have wa': "wf_adj (triples_' (add_triple t KG))"
    by (simp add: t f wf_adj_insert_edge[OF wa])
  have "length (triples (add_triple t KG)) = card (set (triples (add_triple t KG)))"
    using distinct_flat[OF wa'] by (simp add: triples_flat distinct_card)
  also have "\<dots> = Suc (card (set (triples KG)))" using nt by (simp add: s)
  also have "card (set (triples KG)) = length (triples KG)"
    using distinct_flat[OF wa] by (simp add: triples_flat distinct_card)
  finally have l: "length (triples (add_triple t KG)) = Suc (length (triples KG))" .
  show ?thesis
    using w wa' l s f ent_ok_add_triple[of KG t]
    by (auto simp: wf_kg_def t ents_insert)
qed

lemma triples_add_triple:
  "wf_kg KG \<Longrightarrow> set (triples (add_triple t KG)) = insert t (set (triples KG))"
proof (cases "has_triple KG t")
  case True
  assume w: "wf_kg KG"
  then have wa: "wf_adj (triples_' KG)" by (simp add: wf_kg_def)
  from True has_triple_iff[OF wa] have "t \<in> set (triples KG)" by simp
  with True show ?thesis by (cases t) (auto simp: add_triple_def)
next
  case False
  assume w: "wf_kg KG"
  then have wa: "wf_adj (triples_' KG)" by (simp add: wf_kg_def)
  obtain e1 r e2 where t: "t = (e1, r, e2)" by (cases t)
  note f = add_triple_fields[OF False[unfolded t]]
  show ?thesis by (simp add: triples_flat t f set_flat_insert_edge[OF wa])
qed

lemma wf_kg_empty: "wf_kg KnowledgeGraph" "wf_kg (Summary P)"
  by (simp_all add: wf_kg_def KnowledgeGraph_def Summary_def wf_adj_def triples_def ent_ok_def ents_def)

lemma wf_kg_fold: "wf_kg KG \<Longrightarrow> wf_kg (fold add_triple ts KG)"
  by (induction ts arbitrary: KG) (simp_all add: wf_kg_add_triple)

lemma wf_kg_of: "wf_kg (kg_of ts)"
  by (simp add: kg_of_def wf_kg_fold wf_kg_empty)

lemma triples_fold:
  "wf_kg KG \<Longrightarrow> set (triples (fold add_triple ts KG)) = set (triples KG) \<union> set ts"
  by (induction ts arbitrary: KG) (auto simp: wf_kg_add_triple triples_add_triple)

section \<open>Generated queries replay to their recorded answers\<close>

lemma choice_ok:
  "seq \<noteq> [] \<Longrightarrow> \<exists>x rnd'. choice seq rnd = Inr (x, rnd') \<and> x \<in> set seq"
  by (cases rnd) (auto simp: choice_def)

lemma choice_Inr:
  "choice seq rnd = Inr (x, rnd') \<Longrightarrow> x \<in> set seq"
  by (cases rnd) (auto simp: choice_def split: if_splits)

lemma predicates_of_getitem2:
  "p \<in> set (predicates_of KG entity keep) \<Longrightarrow> \<exists>os. getitem2 KG entity p = Inr os"
  by (auto simp: predicates_of_def getitem2_def split: sum.splits option.splits
           dest!: map_of_eq_None_iff[THEN iffD1] intro: rev_image_eqI)

lemma add_constraint_cases:
  assumes "add_constraint KG names ex chain i candidates cs rnd = Inr (cand', cs1, rnd1)"
  shows "(cs1 = cs \<and> cand' = candidates) \<or>
         (\<exists>c. cs1 = cs @ [c] \<and> SourceNodeIndex c = i \<and>
              cand' = filter (\<lambda>e. e \<notin> set (filter (misfit KG (NodePredicate c) (Argument c))
                                         candidates)) candidates)"
  using assms
  by (auto simp: add_constraint_def Let_def split: sum.splits prod.splits if_splits)

lemma add_constraint_total:
  "candidates \<noteq> [] \<Longrightarrow>
     \<exists>res. add_constraint KG names ex chain i candidates cs rnd = Inr res"
proof -
  assume ne: "candidates \<noteq> []"
  obtain entity rnd1 where c1: "choice candidates rnd = Inr (entity, rnd1)"
    using choice_ok[OF ne] by blast
  define ps where "ps = predicates_of KG entity (\<lambda>pred. pred \<notin> set chain \<and> pred \<notin> set ex)"
  show ?thesis
  proof (cases "ps = []")
    case True
    then show ?thesis using c1 by (simp add: add_constraint_def ps_def)
  next
    case False
    obtain p rnd2 where c2: "choice ps rnd1 = Inr (p, rnd2)" "p \<in> set ps"
      using choice_ok[OF False] by blast
    obtain os where g: "getitem2 KG entity p = Inr os"
      using predicates_of_getitem2 c2(2) unfolding ps_def by blast
    show ?thesis
    proof (cases "os = []")
      case True
      then show ?thesis using c1 c2 g False
        by (simp add: add_constraint_def ps_def[symmetric])
    next
      case ne2: False
      obtain a rnd3 where c3: "choice os rnd2 = Inr (a, rnd3)"
        using choice_ok[OF ne2] by blast
      show ?thesis using c1 c2 g False ne2 c3
        by (simp add: add_constraint_def ps_def[symmetric] Let_def)
    qed
  qed
qed

lemma generate_loop_total:
  "\<exists>res. generate_loop KG names cidx ex chain i rest result cs rnd = Inr res"
proof (induction rest arbitrary: i result cs rnd)
  case Nil
  then show ?case by simp
next
  case (Cons p rest)
  define cand where "cand = add_candidates KG p result"
  show ?case
  proof (cases "cand \<noteq> [] \<and> cidx = Some i")
    case True
    then obtain cand' cs1 rnd1 where
      "add_constraint KG names ex chain i cand cs rnd = Inr (cand', cs1, rnd1)"
      using add_constraint_total[of cand KG names ex chain i cs rnd] by (metis prod_cases3)
    with True Cons.IH[of "Suc i" cand' cs1 rnd1] show ?thesis
      by (simp add: cand_def[symmetric])
  next
    case False
    with Cons.IH[of "Suc i" cand cs rnd] show ?thesis
      by (auto simp: cand_def[symmetric])
  qed
qed

lemma generate_loop_answer:
  "generate_loop KG names cidx ex chain i rest result cs rnd = Inr (result', cs', rnd')
   \<Longrightarrow> \<exists>new. cs' = cs @ new \<and> (\<forall>c \<in> set new. i \<le> SourceNodeIndex c)
         \<and> (\<forall>pre. (\<forall>c \<in> set pre. SourceNodeIndex c < i)
                \<longrightarrow> answer_loop KG (pre @ new) i rest result = result')"
proof (induction rest arbitrary: i result cs rnd)
  case Nil
  then show ?case by simp
next
  case (Cons p rest)
  define cand where "cand = add_candidates KG p result"
  from Cons.prems obtain cand1 cs1 rnd1 where
    step: "(if cand \<noteq> [] \<and> cidx = Some i
            then add_constraint KG names ex chain i cand cs rnd
            else Inr (cand, cs, rnd)) = Inr (cand1, cs1, rnd1)"
    and rest: "generate_loop KG names cidx ex chain (Suc i) rest cand1 cs1 rnd1
                 = Inr (result', cs', rnd')"
    by (auto simp: cand_def[symmetric] split: sum.splits prod.splits)
  from Cons.IH[OF rest] obtain new' where
    n1: "cs' = cs1 @ new'" and n2: "\<forall>c \<in> set new'. Suc i \<le> SourceNodeIndex c"
    and n3: "\<And>pre. (\<forall>c \<in> set pre. SourceNodeIndex c < Suc i)
                \<Longrightarrow> answer_loop KG (pre @ new') (Suc i) rest cand1 = result'"
    by blast
  have f0: "\<And>pre. (\<forall>c \<in> set pre. SourceNodeIndex c < i)
             \<Longrightarrow> filter (\<lambda>c. SourceNodeIndex c = i) pre = []"
    by (auto simp: filter_empty_conv)
  have f1: "filter (\<lambda>c. SourceNodeIndex c = i) new' = []"
    using n2 by (auto simp: filter_empty_conv)
  from step have "(cs1 = cs \<and> cand1 = cand) \<or>
         (\<exists>c. cs1 = cs @ [c] \<and> SourceNodeIndex c = i \<and>
              cand1 = filter (\<lambda>e. e \<notin> set (filter (misfit KG (NodePredicate c) (Argument c))
                                         cand)) cand)"
  proof (cases "cand \<noteq> [] \<and> cidx = Some i")
    case True
    with step have "add_constraint KG names ex chain i cand cs rnd = Inr (cand1, cs1, rnd1)"
      by simp
    from add_constraint_cases[OF this] show ?thesis .
  next
    case False
    with step show ?thesis by auto
  qed
  then show ?case
  proof
    assume a: "cs1 = cs \<and> cand1 = cand"
    have "\<And>pre. (\<forall>c \<in> set pre. SourceNodeIndex c < i)
            \<Longrightarrow> answer_loop KG (pre @ new') i (p # rest) result = result'"
    proof -
      fix pre :: "constraint list" assume pre: "\<forall>c \<in> set pre. SourceNodeIndex c < i"
      then have "\<forall>c \<in> set pre. SourceNodeIndex c < Suc i" by auto
      from n3[OF this] show "answer_loop KG (pre @ new') i (p # rest) result = result'"
        using a f0[OF pre] f1 by (simp add: cand_def[symmetric] remove_of_def)
    qed
    with n1 n2 a show ?thesis
      by (intro exI[of _ new']) (auto intro: Suc_leD)
  next
    assume "\<exists>c. cs1 = cs @ [c] \<and> SourceNodeIndex c = i \<and>
              cand1 = filter (\<lambda>e. e \<notin> set (filter (misfit KG (NodePredicate c) (Argument c))
                                         cand)) cand"
    then obtain c where c: "cs1 = cs @ [c]" "SourceNodeIndex c = i"
      "cand1 = filter (\<lambda>e. e \<notin> set (filter (misfit KG (NodePredicate c) (Argument c))
                                         cand)) cand"
      by blast
    have "\<And>pre. (\<forall>c \<in> set pre. SourceNodeIndex c < i)
            \<Longrightarrow> answer_loop KG (pre @ c # new') i (p # rest) result = result'"
    proof -
      fix pre :: "constraint list" assume pre: "\<forall>c \<in> set pre. SourceNodeIndex c < i"
      then have "\<forall>c' \<in> set (pre @ [c]). SourceNodeIndex c' < Suc i" using c(2) by auto
      from n3[OF this] show "answer_loop KG (pre @ c # new') i (p # rest) result = result'"
        using c f0[OF pre] f1 by (simp add: cand_def[symmetric] remove_of_def)
    qed
    with n1 n2 c show ?thesis
      by (intro exI[of _ "c # new'"]) (auto intro: Suc_leD)
  qed
qed

lemma build_chain_total:
  "wf_adj (triples_' KG) \<Longrightarrow> \<exists>res. build_chain KG ex n entity rnd = Inr res"
proof (induction n arbitrary: entity rnd)
  case 0
  then show ?case by simp
next
  case (Suc n)
  define ps where "ps = predicates_of KG entity (\<lambda>pred. pred \<notin> set ex)"
  show ?case
  proof (cases "ps = []")
    case True
    then show ?thesis by (simp add: ps_def[symmetric])
  next
    case False
    obtain p rnd1 where c1: "choice ps rnd = Inr (p, rnd1)" "p \<in> set ps"
      using choice_ok[OF False] by blast
    obtain os where g: "getitem2 KG entity p = Inr os"
      using predicates_of_getitem2 c1(2) unfolding ps_def by blast
    have "os \<noteq> []"
      using g Suc.prems wf_adj_lookup2[of "triples_' KG" entity _ p os]
      by (auto simp: getitem2_def getitem_def split: option.splits sum.splits)
    then obtain e' rnd2 where c2: "choice os rnd1 = Inr (e', rnd2)"
      using choice_ok by blast
    obtain res where "build_chain KG ex n e' rnd2 = Inr res"
      using Suc.IH[OF Suc.prems] by blast
    then show ?thesis using False c1 g c2
      by (cases res) (simp add: ps_def[symmetric])
  qed
qed

text \<open>
  Claim C9: for every graph, topic entity, chain length, constraint placement and sequence
  of random draws, \<open>generate_query\<close> returns a query, and \<open>answer_query\<close> on the same graph
  returns exactly the set of the \<open>AnswerArgument\<close> values of its recorded answers.
\<close>

theorem C9_generate_answer_consistent:
  "\<exists>q. generate_query is_entity (kg_of ts) topic_mid chain_len qid entity_names
          constraint_index exclude_preds rnd = Inr q
       \<and> answer_query (kg_of ts) q = AnswerArgument ` set (Answers (Parse q))"
proof -
  let ?KG = "kg_of ts"
  have w: "wf_adj (triples_' ?KG)" using wf_kg_of[of ts] by (simp add: wf_kg_def)
  obtain chain rnd1 where b: "build_chain ?KG exclude_preds chain_len topic_mid rnd = Inr (chain, rnd1)"
    using build_chain_total[OF w] by (metis prod.exhaust)
  obtain result cs rnd2 where g: "generate_loop ?KG entity_names constraint_index exclude_preds
       chain 0 chain [topic_mid] [] rnd1 = Inr (result, cs, rnd2)"
    using generate_loop_total by (metis prod_cases3)
  from generate_loop_answer[OF g] have a: "answer_loop ?KG cs 0 chain [topic_mid] = result"
    by (metis append_Nil empty_iff list.set(1) not_less_zero)
  show ?thesis
    using b g a
    by (auto simp: generate_query_def answer_query_def Let_def image_iff)
qed

section \<open>Marginal values\<close>

lemma parent_add_triple [simp]: "parent_' (add_triple t S) = parent_' S"
  by (cases S, cases t) (simp add: add_triple_def record_entity_def Let_def)

lemma parent_fold [simp]: "parent_' (fold add_triple ts S) = parent_' S"
  by (induction ts arbitrary: S) simp_all

lemma finite_ents: "finite X \<Longrightarrow> finite (ents X)"
  by (simp add: ents_def)

lemma objective_insert:
  assumes "finite X" "t = (e1, r, e2)" "t \<notin> X" "e1 \<noteq> e2"
  shows "objective ev tv (insert t X) - objective ev tv X =
           (if e1 \<in> ents X then 0 else ev e1) + (if e2 \<in> ents X then 0 else ev e2) + tv t"
proof -
  have f: "finite (ents X)" using assms(1) by (rule finite_ents)
  have "(\<Sum>e \<in> ents (insert t X). ev e) =
          (if e1 \<in> ents X then 0 else ev e1) + (if e2 \<in> ents X then 0 else ev e2)
            + (\<Sum>e \<in> ents X. ev e)"
    using f assms(4) by (simp add: assms(2) ents_insert sum.insert_if)
  moreover have "(\<Sum>u \<in> insert t X. tv u) = tv t + (\<Sum>u \<in> X. tv u)"
    using assms(1,3) by simp
  ultimately show ?thesis by (simp add: objective_def)
qed

lemma triples_Summary [simp]: "triples (Summary P) = []"
  by (simp add: triples_def Summary_def)

lemma objective_insert_gen:
  assumes "finite X" "t = (e1, r, e2)" "t \<notin> X" "\<not> (e1 = e2 \<and> e1 \<notin> ents X)"
  shows "objective ev tv (insert t X) - objective ev tv X =
           (if e1 \<in> ents X then 0 else ev e1) + (if e2 \<in> ents X then 0 else ev e2) + tv t"
proof (cases "e1 = e2")
  case False
  then show ?thesis using objective_insert[OF assms(1,2,3)] by simp
next
  case True
  with assms(4) have i: "e1 \<in> ents X" by simp
  have "ents (insert t X) = ents X"
    using i True by (auto simp: assms(2) ents_insert)
  moreover have "(\<Sum>u \<in> insert t X. tv u) = tv t + (\<Sum>u \<in> X. tv u)"
    using assms(1,3) by simp
  ultimately show ?thesis using i True by (simp add: objective_def)
qed

lemma objective_self_loop:
  assumes "finite X" "t = (e1, r, e1)" "e1 \<notin> ents X"
  shows "objective ev tv (insert t X) - objective ev tv X = ev e1 + tv t"
proof -
  have f: "finite (ents X)" using assms(1) by (rule finite_ents)
  have tX: "t \<notin> X" using assms(2,3) by (force simp: ents_def)
  have "(\<Sum>e \<in> ents (insert t X). ev e) = ev e1 + (\<Sum>e \<in> ents X. ev e)"
    using f assms(3) by (simp add: assms(2) ents_insert)
  moreover have "(\<Sum>u \<in> insert t X. tv u) = tv t + (\<Sum>u \<in> X. tv u)"
    using assms(1) tX by simp
  ultimately show ?thesis by (simp add: objective_def)
qed

lemma marginal_value_formula:
  assumes ev: "\<forall>e. entity_value P e = Inr (ev e)"
      and tv: "\<forall>t. triple_value P t = Inr (tv t)"
      and p: "parent_' S = P"
      and he: "\<And>e. has_entity S e \<longleftrightarrow> e \<in> ents X"
      and ht: "\<And>t. has_triple S t \<longleftrightarrow> t \<in> X"
  shows "marginal_value fa S (e1, r, e2)
           = Inr (float_sum fa (marginal_terms ev tv X (e1, r, e2)))"
  using ev tv by (simp add: marginal_value_def p Let_def he ht marginal_terms_def float_sum_def)

lemma float_sum_exact: "float_sum exact xs = fsum xs"
proof -
  have "radd exact = fadd"
    by (intro ext) (simp add: radd_def rounded_def exact_def split: npfloat.splits)
  then show ?thesis by (simp add: float_sum_def fsum_def)
qed

lemma loop_values:
  "\<forall>e. entity_value loop_kg e = Inr (Fin (loop_ev e))"
  "\<forall>t. triple_value loop_kg t = Inr (Fin (loop_tv t))"
  by (simp_all add: entity_value_def triple_value_def loop_kg_def loop_ev_def loop_tv_def)

lemma dyadic_values:
  "\<forall>e. entity_value dyadic_kg e = Inr (Fin (dyadic_ev e))"
  "\<forall>t. triple_value dyadic_kg t = Inr (Fin (dyadic_tv t))"
  by (simp_all add: entity_value_def triple_value_def dyadic_kg_def dyadic_ev_def dyadic_tv_def)

lemma summary_sets:
  assumes "S = fold add_triple ts (Summary P)"
  shows "parent_' S = P" "\<And>e. has_entity S e \<longleftrightarrow> e \<in> ents (set (triples S))"
    "\<And>t. has_triple S t \<longleftrightarrow> t \<in> set (triples S)" "set (triples S) = set ts"
proof -
  have w: "wf_kg S" unfolding assms by (intro wf_kg_fold wf_kg_empty)
  show "parent_' S = P" unfolding assms by (simp add: Summary_def)
  show "\<And>e. has_entity S e \<longleftrightarrow> e \<in> ents (set (triples S))"
    using w by (simp add: has_entity_def wf_kg_def)
  have wa: "wf_adj (triples_' S)" using w by (simp add: wf_kg_def)
  show "\<And>t. has_triple S t \<longleftrightarrow> t \<in> set (triples S)"
    using has_triple_iff[OF wa] by simp
  show "set (triples S) = set ts"
    unfolding assms using triples_fold[OF wf_kg_empty(2), of ts P] by simp
qed

text \<open>
  Claim C4, as stated: for every triple \<open>t\<close> not in \<open>S\<close>, \<open>marginal_value(S, t)\<close> is
  \<open>f(S \<union> {t}) - f(S)\<close>, each entity counted once. It is not for a self-loop
  \<open>(a, r, a)\<close> whose entity is new: the code adds the value of \<open>a\<close> once as subject and once
  as object. On the graph with this one triple, scored for the topic \<open>a\<close> (every value
  is \<open>log 2\<close>), the marginal value on the empty summary is the sum of three terms
  \<open>log 2\<close>, whatever the rounding, and \<open>3 \<cdot> log 2\<close> without rounding, where the difference
  of the objective is \<open>2 \<cdot> log 2\<close>.
\<close>

theorem C4_self_loop_counterexample:
  "(''a'', ''r'', ''a'') \<notin> set (triples (Summary loop_kg))
   \<and> (\<forall>fa. marginal_value fa (Summary loop_kg) (''a'', ''r'', ''a'')
              = Inr (float_sum fa [Fin (ln 2), Fin (ln 2), Fin (ln 2)]))
   \<and> marginal_value exact (Summary loop_kg) (''a'', ''r'', ''a'') = Inr (Fin (3 * ln 2))
   \<and> objective loop_ev loop_tv (insert (''a'', ''r'', ''a'') (set (triples (Summary loop_kg))))
       - objective loop_ev loop_tv (set (triples (Summary loop_kg))) = 2 * ln 2
   \<and> marginal_value exact (Summary loop_kg) (''a'', ''r'', ''a'')
       \<noteq> Inr (Fin (objective loop_ev loop_tv
                        (insert (''a'', ''r'', ''a'') (set (triples (Summary loop_kg))))
                     - objective loop_ev loop_tv (set (triples (Summary loop_kg)))))"
proof -
  have s: "Summary loop_kg = fold add_triple [] (Summary loop_kg)" by simp
  note ss = summary_sets[OF s]
  have m: "\<And>fa. marginal_value fa (Summary loop_kg) (''a'', ''r'', ''a'')
             = Inr (float_sum fa [Fin (ln 2), Fin (ln 2), Fin (ln 2)])"
    using marginal_value_formula[OF loop_values ss(1,2,3), of _ "''a''" "''r''" "''a''"]
    by (simp add: marginal_terms_def ents_def loop_ev_def loop_tv_def)
  have e: "marginal_value exact (Summary loop_kg) (''a'', ''r'', ''a'') = Inr (Fin (3 * ln 2))"
    by (simp add: m float_sum_exact fsum_def)
  have o: "objective loop_ev loop_tv (insert (''a'', ''r'', ''a'') (set (triples (Summary loop_kg))))
       - objective loop_ev loop_tv (set (triples (Summary loop_kg))) = 2 * ln 2"
    by (simp add: objective_def ents_def loop_ev_def loop_tv_def)
  have n: "(3::real) * ln 2 \<noteq> 2 * ln 2" by simp
  show ?thesis using m e o n by simp
qed

text \<open>
  Claim C4, amended: for a summary \<open>S\<close> built by \<open>add_triple\<close> over an annotated parent and
  every triple \<open>t = (e1, r, e2)\<close>, \<open>marginal_value(S, t)\<close> is the float sum, accumulated
  from 0 in this order, of those of \<open>entity_value(e1)\<close>, \<open>entity_value(e2)\<close> and
  \<open>triple_value(t)\<close> whose indicator \<open>[e1 \<notin> S]\<close>, \<open>[e2 \<notin> S]\<close>, \<open>[t \<notin> S]\<close> is 1; it is zero
  when \<open>t\<close> is in \<open>S\<close>. When \<open>t\<close> is not in \<open>S\<close>, the values are finite and the float sum
  rounds nothing, it equals \<open>f(S \<union> {t}) - f(S)\<close>, unless \<open>t\<close> is a self-loop on an entity
  that is not in \<open>S\<close>: then it exceeds the difference by the value of this entity.
\<close>

theorem C4_marginal_value:
  assumes ev: "\<forall>e. entity_value P e = Inr (ev e)"
      and tv: "\<forall>t. triple_value P t = Inr (tv t)"
      and S: "S = fold add_triple ts (Summary P)"
      and X: "X = set (triples S)"
      and t: "t = (e1, r, e2)"
  shows "marginal_value fa S t = Inr (float_sum fa (marginal_terms ev tv X t))
       \<and> (t \<in> X \<longrightarrow> marginal_value fa S t = Inr (Fin 0))
       \<and> (t \<notin> X \<and> (\<forall>e. ev e = Fin (evr e)) \<and> (\<forall>u. tv u = Fin (tvr u))
            \<and> float_sum fa (marginal_terms ev tv X t) = fsum (marginal_terms ev tv X t) \<longrightarrow>
            marginal_value fa S t =
              Inr (Fin (objective evr tvr (insert t X) - objective evr tvr X
                        + (if e1 = e2 \<and> e1 \<notin> ents X then evr e1 else 0))))"
proof -
  note ss = summary_sets[OF S]
  have m: "marginal_value fa S t = Inr (float_sum fa (marginal_terms ev tv X t))"
    unfolding t X by (rule marginal_value_formula[OF ev tv ss(1,2,3)])
  have i: "t \<in> X \<Longrightarrow> e1 \<in> ents X \<and> e2 \<in> ents X"
    unfolding t by (force simp: ents_def)
  have z: "t \<in> X \<Longrightarrow> marginal_value fa S t = Inr (Fin 0)"
    using i m by (simp add: marginal_terms_def float_sum_def t)
  have fin: "finite X" by (simp add: X)
  have d: "marginal_value fa S t =
              Inr (Fin (objective evr tvr (insert t X) - objective evr tvr X
                        + (if e1 = e2 \<and> e1 \<notin> ents X then evr e1 else 0)))"
    if h: "t \<notin> X" "\<forall>e. ev e = Fin (evr e)" "\<forall>u. tv u = Fin (tvr u)"
          "float_sum fa (marginal_terms ev tv X t) = fsum (marginal_terms ev tv X t)"
  proof -
    have "fsum (marginal_terms ev tv X t)
            = Fin ((if e1 \<in> ents X then 0 else evr e1) + (if e2 \<in> ents X then 0 else evr e2)
                   + (if t \<in> X then 0 else tvr t))"
      using h(2,3) by (simp add: marginal_terms_def t fsum_def)
    then have v: "marginal_value fa S t
            = Inr (Fin ((if e1 \<in> ents X then 0 else evr e1)
                      + (if e2 \<in> ents X then 0 else evr e2) + tvr t))"
      using m h(1,4) by simp
    show ?thesis
    proof (cases "e1 = e2 \<and> e1 \<notin> ents X")
      case True
      from True have e: "e1 = e2" by blast
      from True have n: "e1 \<notin> ents X" by blast
      have t': "t = (e1, r, e1)" using t e by simp
      have "objective evr tvr (insert t X) - objective evr tvr X = evr e1 + tvr t"
        by (rule objective_self_loop[OF fin t' n])
      moreover have "(if e1 = e2 \<and> e1 \<notin> ents X then evr e1 else 0) = evr e1"
        using e n by auto
      moreover have "marginal_value fa S t = Inr (Fin (evr e1 + evr e1 + tvr t))"
        using v e n by auto
      ultimately show ?thesis by simp
    next
      case False
      have i0: "(if e1 = e2 \<and> e1 \<notin> ents X then evr e1 else 0) = 0"
        using False by auto
      from objective_insert_gen[OF fin t h(1) False, of evr tvr]
      show ?thesis unfolding i0 using v by simp
    qed
  qed
  show ?thesis using m z d by blast
qed

theorem C4_marginal_value_witness:
  "marginal_value exact dyadic_summary (''b'', ''r'', ''c'') = Inr (Fin (5 / 32))
   \<and> objective dyadic_ev dyadic_tv (insert (''b'', ''r'', ''c'') (set (triples dyadic_summary)))
       - objective dyadic_ev dyadic_tv (set (triples dyadic_summary)) = 5 / 32
   \<and> marginal_value exact dyadic_summary (''a'', ''r'', ''a'') = Inr (Fin (1 / 64))
   \<and> objective dyadic_ev dyadic_tv (insert (''a'', ''r'', ''a'') (set (triples dyadic_summary)))
       - objective dyadic_ev dyadic_tv (set (triples dyadic_summary)) = 1 / 64
   \<and> marginal_value exact dyadic_summary (''a'', ''r'', ''b'') = Inr (Fin 0)"
proof -
  let ?X = "set (triples dyadic_summary)"
  have X: "?X = {(''a'', ''r'', ''b'')}"
    using summary_sets(4)[OF dyadic_summary_def] by simp
  have en': "ents {(''a'', ''r'', ''b'')} = {''a'', ''b''}" by (auto simp: ents_def)
  have en: "ents ?X = {''a'', ''b''}" unfolding X by (rule en')
  have fn: "(\<forall>e. Fin (dyadic_ev e) = Fin (dyadic_ev e))
            \<and> (\<forall>u. Fin (dyadic_tv u) = Fin (dyadic_tv u))" by simp
  have ex: "\<And>t. float_sum exact (marginal_terms (\<lambda>e. Fin (dyadic_ev e)) (\<lambda>u. Fin (dyadic_tv u)) ?X t)
              = fsum (marginal_terms (\<lambda>e. Fin (dyadic_ev e)) (\<lambda>u. Fin (dyadic_tv u)) ?X t)"
    by (rule float_sum_exact)
  note c = C4_marginal_value[OF dyadic_values dyadic_summary_def refl refl,
             where fa = exact and evr = dyadic_ev and tvr = dyadic_tv]
  have t1: "(''b'', ''r'', ''c'') \<notin> ?X" and t2: "(''a'', ''r'', ''a'') \<notin> ?X"
    and t3: "(''a'', ''r'', ''b'') \<in> ?X" unfolding X by simp_all
  have m1: "marginal_value exact dyadic_summary (''b'', ''r'', ''c'')
              = Inr (float_sum exact (marginal_terms (\<lambda>e. Fin (dyadic_ev e))
                       (\<lambda>u. Fin (dyadic_tv u)) ?X (''b'', ''r'', ''c'')))"
    using c[of "''b''" "''r''" "''c''"] by blast
  have v1: "marginal_value exact dyadic_summary (''b'', ''r'', ''c'') = Inr (Fin (5 / 32))"
    unfolding m1 float_sum_exact
    by (simp add: marginal_terms_def en' X fsum_def dyadic_ev_def dyadic_tv_def)
  have d1: "marginal_value exact dyadic_summary (''b'', ''r'', ''c'')
              = Inr (Fin (objective dyadic_ev dyadic_tv (insert (''b'', ''r'', ''c'') ?X)
                          - objective dyadic_ev dyadic_tv ?X
                          + (if ''b'' = ''c'' \<and> ''b'' \<notin> ents ?X then dyadic_ev ''b'' else 0)))"
    using c[of "''b''" "''r''" "''c''"] t1 fn ex by blast
  have m2: "marginal_value exact dyadic_summary (''a'', ''r'', ''a'')
              = Inr (float_sum exact (marginal_terms (\<lambda>e. Fin (dyadic_ev e))
                       (\<lambda>u. Fin (dyadic_tv u)) ?X (''a'', ''r'', ''a'')))"
    using c[of "''a''" "''r''" "''a''"] by blast
  have v2: "marginal_value exact dyadic_summary (''a'', ''r'', ''a'') = Inr (Fin (1 / 64))"
    unfolding m2 float_sum_exact
    by (simp add: marginal_terms_def en' X fsum_def dyadic_ev_def dyadic_tv_def)
  have d2: "marginal_value exact dyadic_summary (''a'', ''r'', ''a'')
              = Inr (Fin (objective dyadic_ev dyadic_tv (insert (''a'', ''r'', ''a'') ?X)
                          - objective dyadic_ev dyadic_tv ?X
                          + (if ''a'' = ''a'' \<and> ''a'' \<notin> ents ?X then dyadic_ev ''a'' else 0)))"
    using c[of "''a''" "''r''" "''a''"] t2 fn ex by blast
  have z: "marginal_value exact dyadic_summary (''a'', ''r'', ''b'') = Inr (Fin 0)"
    using c[of "''a''" "''r''" "''b''"] t3 by blast
  have o1: "objective dyadic_ev dyadic_tv (insert (''b'', ''r'', ''c'') ?X)
              - objective dyadic_ev dyadic_tv ?X = 5 / 32"
    using d1 v1 by (simp add: en)
  have o2: "objective dyadic_ev dyadic_tv (insert (''a'', ''r'', ''a'') ?X)
              - objective dyadic_ev dyadic_tv ?X = 1 / 64"
    using d2 v2 by (simp add: en)
  show ?thesis using v1 o1 v2 o2 z by simp
qed

section \<open>The transition matrix and the sample\<close>

text \<open>
  Claim C1 (code bug): \<open>transition_matrix\<close> inverts the list of ones before the constructor
  sums the duplicates, so \<open>D\<close> holds the out-degrees and not their inverses. On the graph
  \<open>{(a, r, b), (a, r, c)}\<close> the column of \<open>a\<close> has the entries 2 and 2 and sums to 4, where
  \<open>A\<^sup>T \<cdot> D\<^sup>-\<^sup>1\<close> has the entries 1/2 and 1/2 and sums to 1.
\<close>

theorem C1_transition_matrix_fork:
  "(case transition_matrix fork_kg of Inl e \<Rightarrow> False
    | Inr T \<Rightarrow> snd T (1, 0) = Some (Fin 2) \<and> snd T (2, 0) = Some (Fin 2)
               \<and> fsum (column T 0) = Fin 4)
   \<and> (case csr_matrix fork_kg of Inl e \<Rightarrow> False
      | Inr A \<Rightarrow>
        (case column_stochastic_transition A of Inl e \<Rightarrow> False
         | Inr T \<Rightarrow> snd T (1, 0) = Some (Fin (1 / 2)) \<and> snd T (2, 0) = Some (Fin (1 / 2))
                    \<and> fsum (column T 0) = Fin 1))"
  by code_simp

lemma randint_props:
  "randint n m rnd = (ds, rnd') \<Longrightarrow> length ds = m \<and> (0 < n \<longrightarrow> (\<forall>d \<in> set ds. d < n))"
proof (induction m arbitrary: rnd ds rnd')
  case 0
  then show ?case by simp
next
  case (Suc m)
  then show ?case
    by (auto split: prod.splits)
qed

section \<open>The candidate pool keeps its triples\<close>

subsection \<open>heapq permutes the list\<close>

lemma set_shift:
  assumes "p < length xs" "c < length xs" "p \<noteq> c"
  shows "set (xs[p := xs ! c, c := x]) = set (xs[p := x])"
proof -
  let ?ys = "xs[p := x]"
  have "?ys[p := ?ys ! c, c := ?ys ! p] = xs[p := xs ! c, c := x]"
    using assms by simp
  moreover have "set (?ys[p := ?ys ! c, c := ?ys ! p]) = set ?ys"
    using assms by (intro set_swap) simp_all
  ultimately show ?thesis by simp
qed

lemma siftdown_loop_set:
  "p < length heap \<Longrightarrow>
     set (siftdown_loop lt heap startpos p x) = set (heap[p := x])
     \<and> length (siftdown_loop lt heap startpos p x) = length heap"
proof (induction lt heap startpos p x rule: siftdown_loop.induct)
  case (1 lt heap startpos p newitem)
  show ?case
  proof (cases "startpos < p \<and> lt newitem (heap ! ((p - 1) div 2))")
    case True
    let ?pp = "(p - 1) div 2"
    have pp: "?pp < p" "?pp < length heap" using True "1.prems" by auto
    have "set (siftdown_loop lt (heap[p := heap ! ?pp]) startpos ?pp newitem)
            = set (heap[p := heap ! ?pp, ?pp := newitem])
          \<and> length (siftdown_loop lt (heap[p := heap ! ?pp]) startpos ?pp newitem) = length heap"
      using "1.IH"[OF _ refl refl] True pp by simp
    moreover have "set (heap[p := heap ! ?pp, ?pp := newitem]) = set (heap[p := newitem])"
      using set_shift[of p heap ?pp newitem] pp "1.prems" by simp
    ultimately show ?thesis
      using True by (subst (1 2) siftdown_loop.simps) (simp add: Let_def)
  next
    case False
    then show ?thesis
      by (subst (1 2) siftdown_loop.simps) (auto simp: Let_def)
  qed
qed

lemma siftup_loop_set:
  "p < length heap \<Longrightarrow> siftup_loop lt heap p = (heap', p') \<Longrightarrow>
     p' < length heap' \<and> length heap' = length heap
     \<and> (\<forall>x. set (heap'[p' := x]) = set (heap[p := x]))"
proof (induction lt heap p arbitrary: heap' p' rule: siftup_loop.induct)
  case (1 lt heap p)
  show ?case
  proof (cases "2 * p + 1 < length heap")
    case True
    define c where "c = (if 2 * p + 1 + 1 < length heap
                            \<and> \<not> lt (heap ! (2 * p + 1)) (heap ! (2 * p + 1 + 1))
                         then 2 * p + 1 + 1 else 2 * p + 1)"
    have c: "c < length heap" "p \<noteq> c" using True by (auto simp: c_def)
    have r: "siftup_loop lt (heap[p := heap ! c]) c = (heap', p')"
      using "1.prems"(2) True
      by (subst (asm) siftup_loop.simps) (auto simp: Let_def c_def split: if_splits)
    have "p' < length heap' \<and> length heap' = length (heap[p := heap ! c])
          \<and> (\<forall>x. set (heap'[p' := x]) = set (heap[p := heap ! c, c := x]))"
    proof -
      note ih = "1.IH"[OF refl True refl refl, folded c_def]
      have cl: "c < length (heap[p := heap ! c])" using c by simp
      from ih[OF cl r] show ?thesis .
    qed
    then show ?thesis
      using set_shift[OF "1.prems"(1) c] by simp
  next
    case False
    then have "heap' = heap \<and> p' = p"
      using "1.prems"(2) by (subst (asm) siftup_loop.simps) (simp add: Let_def)
    then show ?thesis using "1.prems"(1) by simp
  qed
qed

lemma siftup_set:
  assumes "p < length heap"
  shows "set (siftup lt heap p) = set heap \<and> length (siftup lt heap p) = length heap"
proof -
  obtain heap' p' where s: "siftup_loop lt heap p = (heap', p')"
    by (cases "siftup_loop lt heap p")
  note l = siftup_loop_set[OF assms s]
  let ?H = "heap'[p' := heap ! p]"
  have p': "p' < length ?H" using l by simp
  have "siftup lt heap p = siftdown_loop lt ?H p p' (?H ! p')"
    by (simp add: siftup_def s siftdown_def Let_def)
  moreover have "?H ! p' = heap ! p" using l by simp
  moreover note siftdown_loop_set[OF p', of lt p "heap ! p"]
  moreover have "set ?H = set heap" using l assms by (simp add: list_update_same_conv)
  ultimately show ?thesis using l by simp
qed

lemma fold_siftup_set:
  "\<forall>i \<in> set is. i < length xs \<Longrightarrow>
     set (fold (\<lambda>i x. siftup lt x i) is xs) = set xs
     \<and> length (fold (\<lambda>i x. siftup lt x i) is xs) = length xs"
proof (induction "is" arbitrary: xs)
  case Nil
  then show ?case by simp
next
  case (Cons i "is")
  have "i < length xs" using Cons.prems by simp
  note s = siftup_set[OF this, of lt]
  have "\<forall>j \<in> set is. j < length (siftup lt xs i)" using Cons.prems s by simp
  from Cons.IH[OF this] s show ?case by simp
qed

lemma heapify_set:
  "set (heapify lt xs) = set xs \<and> length (heapify lt xs) = length xs"
  unfolding heapify_def by (rule fold_siftup_set) auto

subsection \<open>An update permutes the candidates\<close>

lemma update_marginal_length:
  "update_marginal fa S heap i = Inr heap' \<Longrightarrow> length heap' = length heap"
  by (auto simp: update_marginal_def split: sum.splits)

lemma lazy_greedy_props:
  assumes "lazy_greedy fa S heap sample = Inr (heap', b, a)"
  shows "map triple_' heap' = map triple_' heap \<and> a \<in> set sample"
proof -
  let ?s = "heapify (Triple_lt heap) sample"
  note h = heapify_set[of "Triple_lt heap" sample]
  from assms have ne: "?s \<noteq> []" by (auto simp: lazy_greedy_def Let_def split: if_splits)
  from assms ne obtain heap1 where
    u: "update_marginal fa S heap (?s ! 0) = Inr heap1" and
    r: "Inr (heap', b, a) = (case heapreplace (Triple_lt heap1) ?s (?s ! 0) of
            Inl e \<Rightarrow> Inl e | Inr sample' \<Rightarrow> Inr (heap1, ?s ! 0, sample' ! 0))"
    by (auto simp: lazy_greedy_def Let_def split: sum.splits)
  have z: "0 < length ?s" using ne by simp
  have same: "?s[0 := ?s ! 0] = ?s" by (simp add: list_update_same_conv)
  from r ne have a: "a = siftup (Triple_lt heap1) ?s 0 ! 0" and hh: "heap' = heap1"
    by (auto simp: heapreplace_def same)
  note ss = siftup_set[OF z, of "Triple_lt heap1"]
  have "siftup (Triple_lt heap1) ?s 0 ! 0 \<in> set (siftup (Triple_lt heap1) ?s 0)"
    using ss z by (intro nth_mem) simp
  then have "a \<in> set sample" using ss h a by simp
  then show ?thesis using update_marginal_map[OF u] hh by simp
qed

lemma update_loop_argmax:
  "update_loop fa S indices heap argmax = Inr (heap', am) \<Longrightarrow> am = argmax \<or> am \<in> set indices"
proof (induction indices arbitrary: heap argmax)
  case Nil
  then show ?case by simp
next
  case (Cons i indices)
  from Cons.prems obtain heap1 am1 where
    "update_loop fa S indices heap1 am1 = Inr (heap', am)" "am1 = i \<or> am1 = argmax"
    by (auto split: prod.splits sum.splits if_splits)
  with Cons.IH show ?case by auto
qed

lemma move_to_top_map:
  assumes "a < length heap"
  shows "set (map triple_' (move_to_top heap a)) = set (map triple_' heap)
       \<and> distinct (map triple_' (move_to_top heap a)) = distinct (map triple_' heap)
       \<and> length (move_to_top heap a) = length heap"
proof -
  let ?m = "map triple_' heap" and ?l = "length heap - 1"
  have l: "?l < length ?m" "a < length ?m" using assms by auto
  have "map triple_' (move_to_top heap a) = ?m[?l := ?m ! a, a := ?m ! ?l]"
    using assms by (simp add: move_to_top_def map_update)
  then show ?thesis using set_swap[OF l] distinct_swap[OF l]
    by (simp add: move_to_top_def)
qed

lemma sample_indices_bound:
  "0 < n \<Longrightarrow> sample_indices n m rnd = Inr (indices, rnd') \<Longrightarrow> \<forall>i \<in> set indices. i < n"
  by (auto simp: sample_indices_def split: if_splits dest: randint_props)

lemma update_perm:
  assumes "update fa heap S sample_size rnd = Inr (heap', rnd', sample)"
  shows "set (map triple_' heap') = set (map triple_' heap)
       \<and> distinct (map triple_' heap') = distinct (map triple_' heap)"
proof (cases "length heap \<le> 1 \<or> min (int (length heap)) sample_size = 0")
  case True
  with assms show ?thesis by (auto simp: update_def Let_def)
next
  case False
  let ?n = "length heap"
  from False have n: "0 < ?n" by auto
  from assms False obtain indices heap1 b a where
    si: "sample_indices ?n (min (int ?n) sample_size) rnd = Inr (indices, rnd')" and
    lg: "lazy_greedy fa S heap indices = Inr (heap1, b, a)" and
    r: "Inr (heap', rnd', sample) =
         (if triple_' (heap1 ! b) = triple_' (heap1 ! a)
          then Inr (move_to_top heap1 a, rnd', Some indices)
          else (case update_loop fa S indices heap1 0 of Inl e \<Rightarrow> Inl e
                | Inr (heap2, argmax) \<Rightarrow> Inr (move_to_top heap2 argmax, rnd', Some indices)))"
    by (auto simp: update_def Let_def split: sum.splits prod.splits if_splits)
  note b = sample_indices_bound[OF n si]
  note l = lazy_greedy_props[OF lg]
  have len1: "length heap1 = ?n" using l by (metis length_map)
  have a: "a < length heap1" using l b len1 by auto
  show ?thesis
  proof (cases "triple_' (heap1 ! b) = triple_' (heap1 ! a)")
    case True
    with r have "heap' = move_to_top heap1 a" by simp
    then show ?thesis using move_to_top_map[OF a] l by simp
  next
    case False
    with r obtain heap2 am where ul: "update_loop fa S indices heap1 0 = Inr (heap2, am)"
      and h: "heap' = move_to_top heap2 am"
      by (auto split: sum.splits prod.splits)
    have m2: "map triple_' heap2 = map triple_' heap1" using update_loop_map[OF ul] .
    then have len2: "length heap2 = ?n" using len1 by (metis length_map)
    have "am < length heap2" using update_loop_argmax[OF ul] b n len2 by auto
    from move_to_top_map[OF this] show ?thesis using h m2 l by simp
  qed
qed

section \<open>The sample of an update\<close>

lemma sample_indices_ok:
  assumes "sample_indices n m rnd = Inr (idx, rnd')" "0 < n" "m \<le> int n"
  shows "int (length idx) = m \<and> list_all (\<lambda>i. i < n) idx \<and> (int n \<le> m \<longrightarrow> idx = [0..<n])"
proof (cases "m < int n")
  case True
  with assms(1) have m0: "0 \<le> m" and r: "randint n (nat m) rnd = (idx, rnd')"
    by (auto simp: sample_indices_def split: if_splits)
  from randint_props[OF r] assms(2) m0 True show ?thesis
    by (simp add: list_all_iff)
next
  case False
  with assms(1,3) show ?thesis
    by (auto simp: sample_indices_def list_all_iff)
qed

lemma update_sample:
  assumes "update fa heap S sample_size rnd = Inr (heap', rnd', s)"
  shows "sample_ok (length heap) sample_size s"
proof (cases "length heap \<le> 1 \<or> min (int (length heap)) sample_size = 0")
  case True
  with assms show ?thesis by (auto simp: update_def sample_ok_def Let_def)
next
  case False
  let ?n = "length heap" and ?m = "min (int (length heap)) sample_size"
  from assms False obtain idx where
    si: "sample_indices ?n ?m rnd = Inr (idx, rnd')" and s: "s = Some idx"
    by (auto simp: update_def Let_def split: sum.splits prod.splits if_splits)
  have n: "0 < ?n" using False by auto
  from sample_indices_ok[OF si n] have
    "int (length idx) = ?m \<and> list_all (\<lambda>i. i < ?n) idx \<and> (int ?n \<le> ?m \<longrightarrow> idx = [0..<?n])"
    by simp
  then have "int (length idx) = ?m \<and> list_all (\<lambda>i. i < ?n) idx
               \<and> (int ?n \<le> sample_size \<longrightarrow> idx = [0..<?n])"
    by (simp add: min_def split: if_splits)
  then show ?thesis using False s by (simp add: sample_ok_def Let_def)
qed

lemma select_loop_log:
  "(case select_loop fa sample_size K heap hist lg rnd of
      Inl (hist', lg', e) \<Rightarrow> \<exists>new. lg' = lg @ new \<and> log_ok (length heap) sample_size new
    | Inr (hist', lg') \<Rightarrow> \<exists>new. lg' = lg @ new \<and> log_ok (length heap) sample_size new)"
proof (induction fa sample_size K heap hist lg rnd rule: select_loop.induct)
  case (1 fa sample_size K heap hist lg rnd)
  show ?case
  proof (cases "heap \<noteq> [] \<and> number_of_triples (fst hist) < K")
    case False
    then show ?thesis by (subst select_loop.simps) auto
  next
    case True
    define t where "t = triple_' (last heap)"
    define heap1 where "heap1 = butlast heap"
    define S where "S = add_triple t (fst hist)"
    have p: "pop heap = Inr (t, heap1)" using True by (simp add: pop_def t_def heap1_def)
    have l1: "length heap1 = length heap - 1" by (simp add: heap1_def)
    have l0: "0 < length heap" using True by simp
    show ?thesis
    proof (cases "update fa heap1 S sample_size rnd")
      case (Inl e)
      then show ?thesis using True p
        by (subst select_loop.simps) (simp add: S_def[symmetric] Let_def)
    next
      case (Inr res)
      obtain heap2 rnd' s where res: "res = (heap2, rnd', s)" by (cases res)
      note u = Inr[unfolded res]
      have l2: "length heap2 = length heap1" using update_length[OF u] .
      have ok: "sample_ok (length heap1) sample_size s" using update_sample[OF u] .
      let ?lg = "lg @ [(length heap1, sample_size, s)]"
      have ih: "case select_loop fa sample_size K heap2 (S, states hist) ?lg rnd' of
          Inl (hist', lg', e) \<Rightarrow> \<exists>new. lg' = ?lg @ new \<and> log_ok (length heap2) sample_size new
        | Inr (hist', lg') \<Rightarrow> \<exists>new. lg' = ?lg @ new \<and> log_ok (length heap2) sample_size new"
        using "1.IH"[OF True p refl S_def refl u refl refl] .
      have ext: "\<And>lg' new. lg' = ?lg @ new \<Longrightarrow> log_ok (length heap2) sample_size new \<Longrightarrow>
               \<exists>new'. lg' = lg @ new' \<and> log_ok (length heap) sample_size new'"
      proof -
        fix lg' new
        assume a: "lg' = ?lg @ new" "log_ok (length heap2) sample_size new"
        have "lg' = lg @ ((length heap1, sample_size, s) # new)" using a(1) by simp
        moreover have "log_ok (length heap) sample_size ((length heap1, sample_size, s) # new)"
          using a(2) l0 l1 l2 ok by simp
        ultimately show "\<exists>new'. lg' = lg @ new' \<and> log_ok (length heap) sample_size new'"
          by blast
      qed
      have step: "select_loop fa sample_size K heap hist lg rnd
                    = select_loop fa sample_size K heap2 (S, states hist) ?lg rnd'"
        using True p Inr res
        by (subst select_loop.simps) (simp add: S_def[symmetric] Let_def)
      show ?thesis
      proof (cases "select_loop fa sample_size K heap2 (S, states hist) ?lg rnd'")
        case (Inl a)
        obtain hist' lg' e where a: "a = (hist', lg', e)" by (cases a)
        from ih Inl a obtain new where
          "lg' = ?lg @ new" "log_ok (length heap2) sample_size new" by auto
        from ext[OF this] show ?thesis using step Inl a by simp
      next
        case (Inr b)
        obtain hist' lg' where b: "b = (hist', lg')" by (cases b)
        from ih Inr b obtain new where
          "lg' = ?lg @ new" "log_ok (length heap2) sample_size new" by auto
        from ext[OF this] show ?thesis using step Inr b by simp
      qed
    qed
  qed
qed

lemma GLIMPSE_select_log:
  assumes "GLIMPSE_select fa KG K epsilon rnd = (hist, lg, out)" "lg \<noteq> []"
  shows "\<exists>heap sample_size. Heap fa KG = Inr heap \<and> K < length heap
           \<and> sample_size_of fa (length heap) K epsilon = Inr sample_size
           \<and> log_ok (length heap) sample_size lg"
proof (cases "Heap fa KG")
  case (Inl e)
  with assms show ?thesis by (simp add: GLIMPSE_select_def)
next
  case heap: (Inr heap)
  show ?thesis
  proof (cases "length heap \<le> K")
    case True
    with assms heap show ?thesis by (simp add: GLIMPSE_select_def Let_def)
  next
    case False
    show ?thesis
    proof (cases "update fa heap (Summary KG) (int (length heap)) rnd")
      case (Inl e)
      with assms heap False show ?thesis by (simp add: GLIMPSE_select_def Let_def)
    next
      case (Inr res)
      obtain heap1 rnd1 s where res: "res = (heap1, rnd1, s)" by (cases res)
      have l1: "length heap1 = length heap" using update_length[OF Inr[unfolded res]] .
      show ?thesis
      proof (cases "sample_size_of fa (length heap1) K epsilon")
        case (Inl e)
        with assms heap False Inr res show ?thesis
          by (simp add: GLIMPSE_select_def Let_def)
      next
        case ss: (Inr sample_size)
        let ?r = "select_loop fa sample_size K heap1 (Summary KG, []) [] rnd1"
        have run: "GLIMPSE_select fa KG K epsilon rnd =
            (case ?r of Inl (hist, lg, e) \<Rightarrow> (states hist, lg, Some e)
             | Inr (hist, lg) \<Rightarrow> (states (fill_hist hist (triples KG) K), lg, None))"
          using heap False Inr res ss by (simp add: GLIMPSE_select_def Let_def)
        note sl = select_loop_log[where fa = fa and sample_size = sample_size and K = K
                    and heap = heap1 and hist = "(Summary KG, [])" and lg = "[]" and rnd = rnd1]
        have "log_ok (length heap1) sample_size lg"
        proof (cases ?r)
          case (Inl a)
          obtain hist' lg' e where a: "a = (hist', lg', e)" by (cases a)
          from sl Inl a have "log_ok (length heap1) sample_size lg'" by simp
          moreover have "lg = lg'" using assms(1) run Inl a by simp
          ultimately show ?thesis by simp
        next
          case (Inr b)
          obtain hist' lg' where b: "b = (hist', lg')" by (cases b)
          from sl Inr b have "log_ok (length heap1) sample_size lg'" by simp
          moreover have "lg = lg'" using assms(1) run Inr b by simp
          ultimately show ?thesis by simp
        qed
        then show ?thesis using heap False ss l1 by simp
      qed
    qed
  qed
qed

text \<open>
  Claim C6, as stated: the sample has \<open>min(n, \<lceil>n/K \<cdot> ln(1/\<epsilon>)\<rceil>)\<close> pairwise distinct indices.
  It has not: \<open>randint\<close> draws with replacement. With the three candidates of the graph
  annotated with dyadic values, a sample size of 2 and a generator whose two draws are 0,
  \<open>update\<close> samples the index 0 twice.
\<close>

theorem C6_with_replacement_counterexample:
  "(case Heap exact dyadic_kg of Inl e \<Rightarrow> False
    | Inr heap \<Rightarrow> length heap = 3 \<and>
       (case update exact heap (Summary dyadic_kg) 2 [0, 0] of Inl e \<Rightarrow> False
        | Inr (heap', rnd', s) \<Rightarrow> s = Some [0, 0] \<and> \<not> distinct [0::nat, 0]))"
  by code_simp

text \<open>
  Claim C6, amended: in a run of \<open>GLIMPSE\<close> that reaches the selection loop, the sample
  size is computed once, before the loop, from the number \<open>n0\<close> of candidates at that
  point: it is \<open>n0\<close> when \<open>\<epsilon>\<close> is unset, and otherwise the float64 product of \<open>n0 / K\<close> and
  \<open>log(1 / \<epsilon>)\<close>, truncated towards zero. The iteration \<open>j\<close> of the loop (from 1) samples
  among the \<open>n = n0 - j\<close> candidates left after its pop: with \<open>m = min(n, sample_size)\<close>,
  nothing is sampled when \<open>n \<le> 1\<close> or \<open>m = 0\<close>, and otherwise the sample has \<open>m\<close> indices of
  the range \<open>0..n-1\<close>, repeats being possible, and is the whole range when the sample size
  is at least \<open>n\<close>.
\<close>

theorem C6_sample:
  assumes "GLIMPSE_run fa KG0 K query_log epsilon power_n rnd = (hist, lg, out)" "lg \<noteq> []"
  shows "\<exists>KG heap sample_size.
           model_user_pref fa KG0 query_log power_n = Inr KG \<and> Heap fa KG = Inr heap
           \<and> 0 < K \<and> K < length heap
           \<and> sample_size_of fa (length heap) K epsilon = Inr sample_size
           \<and> (epsilon = None \<longrightarrow> sample_size = int (length heap))
           \<and> (\<forall>eps. epsilon = Some eps \<longrightarrow>
                 (\<exists>x. rmul fa (fl fa (real (length heap) / real K))
                              (np_log fa (rdiv fa (Fin 1) eps)) = Fin x
                      \<and> sample_size = py_int x))
           \<and> log_ok (length heap) sample_size lg"
proof (cases "model_user_pref fa KG0 query_log power_n")
  case (Inl e)
  with assms show ?thesis by (simp add: GLIMPSE_run_def)
next
  case (Inr KG)
  with assms(1) have "GLIMPSE_select fa KG K epsilon rnd = (hist, lg, out)"
    by (simp add: GLIMPSE_run_def)
  from GLIMPSE_select_log[OF this assms(2)] obtain heap sample_size where
    h: "Heap fa KG = Inr heap" "K < length heap"
       "sample_size_of fa (length heap) K epsilon = Inr sample_size"
       "log_ok (length heap) sample_size lg"
    by blast
  have k: "0 < K"
  proof (rule ccontr)
    assume "\<not> 0 < K"
    then have k0: "K = 0" by simp
    have "\<And>fa ss heap hist lg rnd. select_loop fa ss 0 heap hist lg rnd = Inr (hist, lg)"
      by (subst select_loop.simps) simp
    then have g: "\<And>fa KG eps rnd hist lg out.
                 GLIMPSE_select fa KG 0 eps rnd = (hist, lg, out) \<Longrightarrow> lg = []"
      by (auto simp: GLIMPSE_select_def Let_def split: sum.splits prod.splits if_splits)
    have "GLIMPSE_select fa KG 0 epsilon rnd = (hist, lg, out)"
      using \<open>GLIMPSE_select fa KG K epsilon rnd = (hist, lg, out)\<close> k0 by simp
    from g[OF this] assms(2) show False by simp
  qed
  have n: "epsilon = None \<longrightarrow> sample_size = int (length heap)"
    using h(3) by (auto simp: sample_size_of_def)
  have s: "\<forall>eps. epsilon = Some eps \<longrightarrow>
                 (\<exists>x. rmul fa (fl fa (real (length heap) / real K))
                              (np_log fa (rdiv fa (Fin 1) eps)) = Fin x
                      \<and> sample_size = py_int x)"
    using h(3) by (auto simp: sample_size_of_def split: if_splits npfloat.splits)
  show ?thesis using Inr h k n s by blast
qed

text \<open>
  A run on the graph with four edges from \<open>a\<close>, for the topic \<open>a\<close>, \<open>K = 2\<close> and
  \<open>\<epsilon> = 1/2\<close>, with a generator whose draws are 0: the log of its samples, and the triples
  of the states of its summary, the last state first.
\<close>

lemma star_run:
  "(case GLIMPSE_run tangent_log star_kg 2 [topic_query ''a''] (Some (Fin (1 / 2))) 1 [0, 0] of
      (hist, lg, out) \<Rightarrow> lg = [(3, 2, Some [0, 0]), (2, 2, Some [0, 1])] \<and> out = None
         \<and> map triples hist = [[(''a'', ''r'', ''b''), (''a'', ''r'', ''e'')],
                                [(''a'', ''r'', ''e'')], []])"
  by code_simp

theorem C6_sample_witness:
  "\<exists>hist out KG heap sample_size.
     GLIMPSE_run tangent_log star_kg 2 [topic_query ''a''] (Some (Fin (1 / 2))) 1 [0, 0]
       = (hist, [(3, 2, Some [0, 0]), (2, 2, Some [0, 1])], out)
     \<and> model_user_pref tangent_log star_kg [topic_query ''a''] 1 = Inr KG
     \<and> Heap tangent_log KG = Inr heap
     \<and> sample_size_of tangent_log (length heap) 2 (Some (Fin (1 / 2))) = Inr sample_size
     \<and> log_ok (length heap) sample_size [(3, 2, Some [0, 0]), (2, 2, Some [0, 1])]"
proof -
  obtain hist lg out where
    r: "GLIMPSE_run tangent_log star_kg 2 [topic_query ''a''] (Some (Fin (1 / 2))) 1 [0, 0]
          = (hist, lg, out)"
    by (cases "GLIMPSE_run tangent_log star_kg 2 [topic_query ''a'']
                 (Some (Fin (1 / 2))) 1 [0, 0]") auto
  with star_run have l: "lg = [(3, 2, Some [0, 0]), (2, 2, Some [0, 1])]" by simp
  then have ne: "lg \<noteq> []" by simp
  from C6_sample[OF r ne] r l show ?thesis by blast
qed

section \<open>The summary stays within its budget and its parent\<close>

lemma number_add_triple:
  "number_of_triples_' (add_triple t S) \<le> Suc (number_of_triples_' S)"
  by (cases S, cases t) (simp add: add_triple_def record_entity_def Let_def)

lemma summary_ok_add:
  assumes "summary_ok K T S" "t \<in> T" "number_of_triples S < K"
  shows "summary_ok K T (add_triple t S)"
proof -
  have w: "wf_kg S" using assms(1) by (simp add: summary_ok_def)
  have w': "wf_kg (add_triple t S)" using w by (rule wf_kg_add_triple)
  have "length (triples (add_triple t S)) = number_of_triples_' (add_triple t S)"
    using w' by (simp add: wf_kg_def)
  also have "\<dots> \<le> Suc (number_of_triples_' S)" by (rule number_add_triple)
  also have "\<dots> \<le> K" using assms(3) by (simp add: number_of_triples_def)
  finally show ?thesis
    using w' triples_add_triple[OF w, of t] assms(1,2) by (simp add: summary_ok_def)
qed

lemma fill_ok:
  "summary_ok K T S \<Longrightarrow> \<forall>S' \<in> set h. summary_ok K T S' \<Longrightarrow> set ts \<subseteq> T
     \<Longrightarrow> \<forall>S' \<in> set (fill (S # h) ts K). summary_ok K T S'"
proof (induction ts arbitrary: S h)
  case Nil
  then show ?case by simp
next
  case (Cons t ts)
  show ?case
  proof (cases "K \<le> number_of_triples S")
    case True
    with Cons.prems show ?thesis by simp
  next
    case False
    then have "summary_ok K T (add_triple t S)"
      using summary_ok_add[of K T S t] Cons.prems by simp
    from Cons.IH[OF this, of "S # h"] Cons.prems False show ?thesis by simp
  qed
qed

lemma fill_nonempty: "fill (S # h) ts K \<noteq> []"
  by (induction ts arbitrary: S h) auto

lemma fill_hist_ok:
  assumes "\<forall>S \<in> set (states hist). summary_ok K T S" "set ts \<subseteq> T"
  shows "\<forall>S \<in> set (states (fill_hist hist ts K)). summary_ok K T S"
proof -
  obtain S h where f: "fill (states hist) ts K = S # h"
    using fill_nonempty[of "fst hist" "snd hist" ts K]
    by (cases "fill (states hist) ts K") (auto simp: states_def)
  have "\<forall>S' \<in> set (fill (fst hist # snd hist) ts K). summary_ok K T S'"
    using assms by (intro fill_ok) (auto simp: states_def)
  then show ?thesis using f by (simp add: fill_hist_def states_def)
qed

lemma select_loop_ok:
  "\<forall>S \<in> set (states hist). summary_ok K T S \<Longrightarrow> set (map triple_' heap) \<subseteq> T
   \<Longrightarrow> (case select_loop fa sample_size K heap hist lg rnd of
          Inl (hist', lg', e) \<Rightarrow> \<forall>S \<in> set (states hist'). summary_ok K T S
        | Inr (hist', lg') \<Rightarrow> \<forall>S \<in> set (states hist'). summary_ok K T S)"
proof (induction fa sample_size K heap hist lg rnd rule: select_loop.induct)
  case (1 fa sample_size K heap hist lg rnd)
  show ?case
  proof (cases "heap \<noteq> [] \<and> number_of_triples (fst hist) < K")
    case False
    then show ?thesis using "1.prems"(1)
      by (subst select_loop.simps) auto
  next
    case True
    define t where "t = triple_' (last heap)"
    define heap1 where "heap1 = butlast heap"
    define S where "S = add_triple t (fst hist)"
    have p: "pop heap = Inr (t, heap1)" using True by (simp add: pop_def t_def heap1_def)
    have tT: "t \<in> T" using True "1.prems"(2) by (auto simp: t_def)
    have okS: "summary_ok K T S"
      unfolding S_def using "1.prems"(1) tT True
      by (intro summary_ok_add) (auto simp: states_def)
    have ok1: "\<forall>S' \<in> set (states (S, states hist)). summary_ok K T S'"
      using okS "1.prems"(1) by (simp add: states_def)
    have h1: "set (map triple_' heap1) \<subseteq> T"
      using "1.prems"(2) by (auto simp: heap1_def dest: in_set_butlastD)
    show ?thesis
    proof (cases "update fa heap1 S sample_size rnd")
      case (Inl e)
      then show ?thesis using True p ok1
        by (subst select_loop.simps) (simp add: S_def[symmetric] Let_def)
    next
      case (Inr res)
      obtain heap2 rnd' sample where res: "res = (heap2, rnd', sample)" by (cases res)
      have h2: "set (map triple_' heap2) \<subseteq> T"
        using update_perm[OF Inr[unfolded res]] h1 by simp
      have "case select_loop fa sample_size K heap2 (S, states hist)
                   (lg @ [(length heap1, sample_size, sample)]) rnd' of
          Inl (hist', lg', e) \<Rightarrow> \<forall>S \<in> set (states hist'). summary_ok K T S
        | Inr (hist', lg') \<Rightarrow> \<forall>S \<in> set (states hist'). summary_ok K T S"
        using "1.IH"[OF True p refl S_def refl Inr[unfolded res] refl refl ok1 h2] .
      then show ?thesis using True p Inr res
        by (subst select_loop.simps) (simp add: S_def[symmetric] Let_def)
    qed
  qed
qed

lemma model_user_pref_fields:
  "model_user_pref fa KG query_log power_n = Inr KG' \<Longrightarrow>
     \<exists>ev tv. KG' = KG\<lparr> entity_value_' := Some ev, triple_value_' := Some tv \<rparr>"
  by (auto simp: model_user_pref_def reset_def Let_def split: sum.splits)

lemma triples_values_upd [simp]:
  "triples (KG\<lparr> entity_value_' := a, triple_value_' := b \<rparr>) = triples KG"
  by (simp add: triples_def)

lemma Heap_loop_subset:
  "Heap_loop fa KG ts heap = Inr heap' \<Longrightarrow>
     set (map triple_' heap') \<subseteq> set (map triple_' heap) \<union> set ts"
proof (induction ts arbitrary: heap)
  case Nil
  then show ?case by simp
next
  case (Cons t ts)
  obtain e1 r e2 where t: "t = (e1, r, e2)" by (cases t)
  from Cons.prems obtain heap1 where
    "Heap_loop fa KG ts heap1 = Inr heap'"
    "set (map triple_' heap1) \<subseteq> set (map triple_' heap) \<union> {t}"
    by (auto simp: t Let_def split: sum.splits if_splits)
  with Cons.IH[of heap1] show ?case by auto
qed

lemma summary_ok_Summary: "summary_ok K T (Summary KG)"
  by (simp add: summary_ok_def wf_kg_empty)

lemma summary_ok_bounds:
  "summary_ok K T S \<Longrightarrow>
     number_of_triples S \<le> K \<and> length (triples S) \<le> K \<and> set (triples S) \<subseteq> T"
  by (simp add: summary_ok_def wf_kg_def number_of_triples_def)

lemma GLIMPSE_select_ok:
  "\<forall>S \<in> set (fst (GLIMPSE_select fa KG K epsilon rnd)). summary_ok K (set (triples KG)) S"
proof -
  let ?T = "set (triples KG)"
  show ?thesis
  proof (cases "Heap fa KG")
    case (Inl e)
    then show ?thesis by (simp add: GLIMPSE_select_def)
  next
    case heap: (Inr heap)
    have hs: "set (map triple_' heap) \<subseteq> ?T"
      using Heap_loop_subset[OF heap[unfolded Heap_def]] by simp
    let ?S = "Summary KG"
    have ok0: "\<forall>S \<in> set (states (?S, [])). summary_ok K ?T S"
      by (simp add: states_def summary_ok_Summary)
    define mid where "mid = (if length heap \<le> K
                     then Inr (fill_hist (?S, []) (heap_triples heap) K, [])
                     else (case update fa heap ?S (int (length heap)) rnd of
                             Inl e \<Rightarrow> Inl ((?S, []), [], e)
                           | Inr (heap1, rnd1, sample) \<Rightarrow>
                             (case sample_size_of fa (length heap1) K epsilon of
                                Inl e \<Rightarrow> Inl ((?S, []), [], e)
                              | Inr sample_size \<Rightarrow>
                                  select_loop fa sample_size K heap1 (?S, []) [] rnd1)))"
    have midok: "case mid of
          Inl (hist', lg', e) \<Rightarrow> \<forall>S \<in> set (states hist'). summary_ok K ?T S
        | Inr (hist', lg') \<Rightarrow> \<forall>S \<in> set (states hist'). summary_ok K ?T S"
    proof (cases "length heap \<le> K")
      case True
      then show ?thesis
        using fill_hist_ok[OF ok0, of "heap_triples heap"] hs
        by (simp add: mid_def heap_triples_def)
    next
      case False
      show ?thesis
      proof (cases "update fa heap ?S (int (length heap)) rnd")
        case (Inl e)
        then show ?thesis using False ok0 by (simp add: mid_def)
      next
        case (Inr res)
        obtain heap1 rnd1 sample where res: "res = (heap1, rnd1, sample)" by (cases res)
        have h1: "set (map triple_' heap1) \<subseteq> ?T"
          using update_perm[OF Inr[unfolded res]] hs by simp
        show ?thesis
        proof (cases "sample_size_of fa (length heap1) K epsilon")
          case (Inl e)
          then show ?thesis using False Inr res ok0 by (simp add: mid_def)
        next
          case ss: (Inr sample_size)
          from select_loop_ok[OF ok0 h1, of fa sample_size "[]" rnd1]
          show ?thesis using False Inr res ss by (simp add: mid_def)
        qed
      qed
    qed
    have run: "GLIMPSE_select fa KG K epsilon rnd =
        (case mid of Inl (hist, lg, e) \<Rightarrow> (states hist, lg, Some e)
         | Inr (hist, lg) \<Rightarrow> (states (fill_hist hist (triples KG) K), lg, None))"
      using heap by (simp add: GLIMPSE_select_def mid_def Let_def)
    show ?thesis
    proof (cases mid)
      case (Inl a)
      then show ?thesis using midok run by (cases a) auto
    next
      case (Inr b)
      obtain hist lg where b: "b = (hist, lg)" by (cases b)
      have "\<forall>S \<in> set (states hist). summary_ok K ?T S" using midok Inr b by simp
      from fill_hist_ok[OF this, of "triples KG"]
      show ?thesis using run Inr b by simp
    qed
  qed
qed

lemma GLIMPSE_run_ok:
  "\<forall>S \<in> set (fst (GLIMPSE_run fa KG0 K query_log epsilon power_n rnd)).
      summary_ok K (set (triples KG0)) S"
proof (cases "model_user_pref fa KG0 query_log power_n")
  case (Inl e)
  then show ?thesis by (simp add: GLIMPSE_run_def)
next
  case (Inr KG)
  from model_user_pref_fields[OF Inr] have tr: "triples KG = triples KG0" by auto
  show ?thesis
    using GLIMPSE_select_ok[of fa KG K epsilon rnd] Inr tr by (simp add: GLIMPSE_run_def)
qed

lemma GLIMPSE_select_nonempty:
  "GLIMPSE_select fa KG K epsilon rnd = (hist, lg, None) \<Longrightarrow> hist \<noteq> []"
  by (auto simp: GLIMPSE_select_def Let_def states_def
           split: sum.splits prod.splits if_splits)

lemma GLIMPSE_run_nonempty:
  "GLIMPSE_run fa KG0 K query_log epsilon power_n rnd = (hist, lg, None) \<Longrightarrow> hist \<noteq> []"
  by (auto simp: GLIMPSE_run_def split: sum.splits dest: GLIMPSE_select_nonempty)

text \<open>
  Claim C3: in every run of \<open>GLIMPSE\<close>, whether it returns or raises, every state the
  summary goes through (after each single \<open>add_triple\<close> of the selection loop and of the two
  \<open>fill\<close> phases) holds at most \<open>K\<close> triples, all of them triples of the graph; the
  returned summary is one of these states.
\<close>

theorem C3_summary_invariant:
  "(\<forall>S \<in> set (fst (GLIMPSE_run fa KG K query_log epsilon power_n rnd)).
      number_of_triples S \<le> K \<and> length (triples S) \<le> K
      \<and> set (triples S) \<subseteq> set (triples KG))
   \<and> (\<forall>S. GLIMPSE fa KG K query_log epsilon power_n rnd = Inr S \<longrightarrow>
         S \<in> set (fst (GLIMPSE_run fa KG K query_log epsilon power_n rnd)))"
proof -
  have "\<And>S. GLIMPSE fa KG K query_log epsilon power_n rnd = Inr S \<Longrightarrow>
         S \<in> set (fst (GLIMPSE_run fa KG K query_log epsilon power_n rnd))"
  proof -
    fix S assume g: "GLIMPSE fa KG K query_log epsilon power_n rnd = Inr S"
    obtain hist lg out where
      r: "GLIMPSE_run fa KG K query_log epsilon power_n rnd = (hist, lg, out)"
      by (cases "GLIMPSE_run fa KG K query_log epsilon power_n rnd") auto
    with g have "out = None" "S = hd hist"
      by (auto simp: GLIMPSE_def split: option.splits)
    with GLIMPSE_run_nonempty[of fa KG K query_log epsilon power_n rnd hist lg] r
    show "S \<in> set (fst (GLIMPSE_run fa KG K query_log epsilon power_n rnd))" by simp
  qed
  then show ?thesis
    using GLIMPSE_run_ok[of fa KG K query_log epsilon power_n rnd] summary_ok_bounds
    by blast
qed

theorem C3_summary_invariant_witness:
  "\<exists>S. GLIMPSE tangent_log star_kg 2 [topic_query ''a''] (Some (Fin (1 / 2))) 1 [0, 0] = Inr S
     \<and> S \<in> set (fst (GLIMPSE_run tangent_log star_kg 2 [topic_query ''a'']
                        (Some (Fin (1 / 2))) 1 [0, 0]))
     \<and> triples S = [(''a'', ''r'', ''b''), (''a'', ''r'', ''e'')]
     \<and> number_of_triples S \<le> 2 \<and> length (triples S) \<le> 2
     \<and> set (triples S) \<subseteq> set (triples star_kg)"
proof -
  let ?run = "GLIMPSE_run tangent_log star_kg 2 [topic_query ''a''] (Some (Fin (1 / 2))) 1 [0, 0]"
  obtain hist lg out where r: "?run = (hist, lg, out)"
    by (cases ?run) auto
  with star_run have out: "out = None"
    and h: "map triples hist = [[(''a'', ''r'', ''b''), (''a'', ''r'', ''e'')],
                                [(''a'', ''r'', ''e'')], []]"
    by simp_all
  from h obtain S rest where hist: "hist = S # rest"
    and t: "triples S = [(''a'', ''r'', ''b''), (''a'', ''r'', ''e'')]"
    by (cases hist) auto
  have g: "GLIMPSE tangent_log star_kg 2 [topic_query ''a''] (Some (Fin (1 / 2))) 1 [0, 0] = Inr S"
    using r out hist by (simp add: GLIMPSE_def)
  note c = C3_summary_invariant[of tangent_log star_kg 2 "[topic_query ''a'']"
             "Some (Fin (1 / 2))" 1 "[0, 0]"]
  from c g have m: "S \<in> set (fst ?run)" by blast
  with c have "number_of_triples S \<le> 2 \<and> length (triples S) \<le> 2
                 \<and> set (triples S) \<subseteq> set (triples star_kg)"
    by blast
  with g m t show ?thesis by blast
qed

section \<open>A budget of zero triples\<close>

text \<open>On a scored graph no lookup of a value raises, so the first \<open>update\<close> returns.\<close>

lemma marginal_value_total:
  assumes "entity_value_' (parent_' S) \<noteq> None" "triple_value_' (parent_' S) \<noteq> None"
  shows "\<exists>v. marginal_value fa S t = Inr v"
proof -
  obtain e1 r e2 where t: "t = (e1, r, e2)" by (cases t)
  from assms obtain ev tv where
    "entity_value_' (parent_' S) = Some ev" "triple_value_' (parent_' S) = Some tv" by auto
  then show ?thesis
    by (simp add: marginal_value_def t Let_def entity_value_def triple_value_def)
qed

lemma update_marginal_total:
  assumes "entity_value_' (parent_' S) \<noteq> None" "triple_value_' (parent_' S) \<noteq> None"
  shows "\<exists>heap'. update_marginal fa S heap i = Inr heap'"
  using marginal_value_total[OF assms, of fa "triple_' (heap ! i)"]
  by (auto simp: update_marginal_def)

lemma update_loop_total:
  assumes "entity_value_' (parent_' S) \<noteq> None" "triple_value_' (parent_' S) \<noteq> None"
  shows "\<exists>res. update_loop fa S indices heap argmax = Inr res"
proof (induction indices arbitrary: heap argmax)
  case Nil
  then show ?case by simp
next
  case (Cons i indices)
  obtain e1 r e2 where t: "triple_' (heap ! i) = (e1, r, e2)" by (cases "triple_' (heap ! i)")
  obtain heap' where u: "update_marginal fa S heap i = Inr heap'"
    using update_marginal_total[OF assms] by blast
  show ?case
    using Cons.IH t u by (cases "has_entity S e1 \<or> has_entity S e2") simp_all
qed

lemma lazy_greedy_total:
  assumes "entity_value_' (parent_' S) \<noteq> None" "triple_value_' (parent_' S) \<noteq> None"
    "sample \<noteq> []"
  shows "\<exists>res. lazy_greedy fa S heap sample = Inr res"
proof -
  let ?s = "heapify (Triple_lt heap) sample"
  have ne: "?s \<noteq> []" using heapify_set[of "Triple_lt heap" sample] assms(3) by auto
  obtain heap' where u: "update_marginal fa S heap (?s ! 0) = Inr heap'"
    using update_marginal_total[OF assms(1,2)] by blast
  show ?thesis using ne u by (simp add: lazy_greedy_def Let_def heapreplace_def)
qed

lemma update_all_total:
  assumes "entity_value_' (parent_' S) \<noteq> None" "triple_value_' (parent_' S) \<noteq> None"
  shows "\<exists>res. update fa heap S (int (length heap)) rnd = Inr res"
proof (cases "length heap \<le> 1")
  case True
  then show ?thesis by (simp add: update_def Let_def)
next
  case False
  let ?n = "length heap"
  have si: "sample_indices ?n (int ?n) rnd = Inr ([0..<?n], rnd)"
    by (simp add: sample_indices_def)
  have ne: "[0..<?n] \<noteq> []" using False by (cases heap) auto
  obtain heap1 b a where lg: "lazy_greedy fa S heap [0..<?n] = Inr (heap1, b, a)"
    using lazy_greedy_total[OF assms ne, of fa heap] by (metis prod_cases3)
  obtain res where ul: "update_loop fa S [0..<?n] heap1 0 = Inr res"
    using update_loop_total[OF assms] by blast
  show ?thesis using False si lg ul
    by (cases res) (simp add: update_def Let_def)
qed

lemma model_user_pref_values:
  "model_user_pref fa KG0 query_log power_n = Inr KG \<Longrightarrow>
     entity_value_' KG \<noteq> None \<and> triple_value_' KG \<noteq> None"
  by (auto simp: model_user_pref_def Let_def split: sum.splits)

text \<open>
  Claim C2 (code bug): \<open>GLIMPSE\<close> does not return for the budget \<open>K = 0\<close> when \<open>\<epsilon>\<close> is set
  (it is by default) and the scored graph has a candidate: the list of candidates is longer
  than \<open>K\<close>, so the sample size is computed, and \<open>len(heap) / K\<close> raises ZeroDivisionError.
  With \<open>\<epsilon>\<close> unset the same call returns the empty summary.
\<close>

theorem C2_zero_budget_raises:
  assumes "model_user_pref fa KG0 query_log power_n = Inr KG" "Heap fa KG = Inr heap"
    "heap \<noteq> []"
  shows "GLIMPSE fa KG0 0 query_log (Some eps) power_n rnd = Inl ZeroDivisionError
       \<and> (\<exists>S. GLIMPSE fa KG0 0 query_log None power_n rnd = Inr S \<and> triples S = [])"
proof -
  note v = model_user_pref_values[OF assms(1)]
  have p: "entity_value_' (parent_' (Summary KG)) \<noteq> None"
          "triple_value_' (parent_' (Summary KG)) \<noteq> None"
    using v by (simp_all add: Summary_def)
  obtain heap1 rnd1 s where
    u: "update fa heap (Summary KG) (int (length heap)) rnd = Inr (heap1, rnd1, s)"
    using update_all_total[OF p, of fa heap rnd] by (metis prod_cases3)
  have l: "\<not> length heap \<le> 0" using assms(3) by simp
  have a: "GLIMPSE fa KG0 0 query_log (Some eps) power_n rnd = Inl ZeroDivisionError"
    using assms(1,2) l u
    by (simp add: GLIMPSE_def GLIMPSE_run_def GLIMPSE_select_def Let_def sample_size_of_def)
  have sl: "\<And>ss h. select_loop fa ss 0 heap1 h [] rnd1 = Inr (h, [])"
    by (subst select_loop.simps) simp
  have f: "\<And>h ts. fill_hist h ts 0 = h"
  proof -
    fix h :: history and ts
    have "fill (states h) ts 0 = states h"
      by (cases ts) (simp_all add: states_def)
    then show "fill_hist h ts 0 = h" by (simp add: fill_hist_def states_def)
  qed
  have b: "GLIMPSE fa KG0 0 query_log None power_n rnd = Inr (Summary KG)"
    using assms(1,2) l u sl f
    by (simp add: GLIMPSE_def GLIMPSE_run_def GLIMPSE_select_def Let_def sample_size_of_def
                  states_def)
  show ?thesis using a b by simp
qed

text \<open>
  The graph with the one triple \<open>(a, r, b)\<close>, scored for the topic \<open>a\<close>, has a candidate.
\<close>

lemma edge_run:
  "(case model_user_pref tangent_log edge_kg [topic_query ''a''] 1 of Inl e \<Rightarrow> False
    | Inr KG \<Rightarrow> (case Heap tangent_log KG of Inl e \<Rightarrow> False | Inr heap \<Rightarrow> length heap = 1))"
  by code_simp

theorem C2_zero_budget_raises_witness:
  "GLIMPSE tangent_log edge_kg 0 [topic_query ''a''] (Some (Fin (1 / 1000))) 1 []
     = Inl ZeroDivisionError
   \<and> (\<exists>S. GLIMPSE tangent_log edge_kg 0 [topic_query ''a''] None 1 [] = Inr S
           \<and> triples S = [])"
proof -
  from edge_run obtain KG heap where
    m: "model_user_pref tangent_log edge_kg [topic_query ''a''] 1 = Inr KG"
    and h: "Heap tangent_log KG = Inr heap" and n: "length heap = 1"
    by (auto split: sum.splits)
  from n have ne: "heap \<noteq> []" by auto
  from C2_zero_budget_raises[OF m h ne] show ?thesis .
qed

section \<open>The value model\<close>

subsection \<open>Entity IDs of a well-formed graph\<close>

lemma wf_entity_id:
  "wf_kg KG \<Longrightarrow> e \<in> set (entities_' KG) \<Longrightarrow>
     \<exists>i. entity_id_' KG e = Some i \<and> i < length (entities_' KG) \<and> entities_' KG ! i = e"
  by (auto simp: wf_kg_def ent_ok_def in_set_conv_nth)

lemma wf_entity_id_Some:
  "wf_kg KG \<Longrightarrow> entity_id_' KG e = Some i \<Longrightarrow>
     i < length (entities_' KG) \<and> entities_' KG ! i = e"
  by (auto simp: wf_kg_def ent_ok_def)

lemma wf_entity_id_None:
  "wf_kg KG \<Longrightarrow> e \<notin> set (entities_' KG) \<Longrightarrow> entity_id_' KG e = None"
  by (metis wf_entity_id_Some nth_mem not_Some_eq)

lemma wf_id_entity:
  "wf_kg KG \<Longrightarrow> id_entity_' KG i =
     (if i < length (entities_' KG) then Some (entities_' KG ! i) else None)"
  by (simp add: wf_kg_def ent_ok_def)

lemma wf_triple_entities:
  "wf_kg KG \<Longrightarrow> (e1, r, e2) \<in> set (triples KG) \<Longrightarrow>
     e1 \<in> set (entities_' KG) \<and> e2 \<in> set (entities_' KG)"
  by (force simp: wf_kg_def ents_def)

lemma wf_reset: "wf_kg (reset KG) = wf_kg KG"
  by (simp add: wf_kg_def reset_def ent_ok_def triples_def)

lemma reset_fields [simp]:
  "entities_' (reset KG) = entities_' KG"
  "entity_id_' (reset KG) = entity_id_' KG"
  "id_entity_' (reset KG) = id_entity_' KG"
  "triples (reset KG) = triples KG"
  "number_of_entities (reset KG) = number_of_entities KG"
  by (simp_all add: reset_def triples_def number_of_entities_def)

end
